theory Spec2Isabelle
  imports Main
begin

section \<open>JavaScript values\<close>

text \<open>
  The values the library stores in signals and compares with \<open>!==\<close> and \<open>!= null\<close>.
  Numbers are modelled as integers plus \<open>NaN\<close>, the one value of the language that is
  strictly unequal to itself; functions and objects are references (compared by
  identity).
\<close>

datatype jsval =
  JUndefined | JNull | JBool bool | JNum int | JNaN | JStr string | JFn nat | JObj nat

text \<open>\<open>a !== b\<close>\<close>

definition strict_neq :: "jsval \<Rightarrow> jsval \<Rightarrow> bool" where
  "strict_neq a b = (a = JNaN \<or> b = JNaN \<or> a \<noteq> b)"

text \<open>\<open>v != null\<close> is false for \<open>null\<close> and for \<open>undefined\<close>.\<close>

definition not_nullish :: "jsval \<Rightarrow> bool" where
  "not_nullish v = (v \<noteq> JNull \<and> v \<noteq> JUndefined)"

text \<open>\<open>typeof v === 'function'\<close>\<close>

fun is_function :: "jsval \<Rightarrow> bool" where
  "is_function (JFn f) = True"
| "is_function v = False"

section \<open>The tracking runtime (\<open>useSignal\<close>, \<open>useComputed\<close>, \<open>useEffect\<close>)\<close>

text \<open>
  A tracked function is a JavaScript closure that reads signals and may read and assign
  the variables it closes over. It is modelled by the tree of the reads it performs:
  \<open>Rd n k\<close> calls the read function of node \<open>n\<close> and continues with \<open>k\<close> applied to the
  value read, \<open>Get x k\<close> and \<open>Put x v p\<close> read and assign the closure's own variable
  \<open>x\<close>, \<open>Ret v\<close> returns \<open>v\<close>.
\<close>

datatype prog =
  Ret jsval
| Rd nat "jsval \<Rightarrow> prog"
| Get nat "jsval \<Rightarrow> prog"
| Put nat jsval prog

datatype kind = Signal | Computed prog | Effect prog

text \<open>
  One heap cell per reactive node. \<open>state\<close> is the \<open>state\<close> variable of \<open>useSignal\<close> and
  \<open>useComputed\<close>; \<open>listeners\<close> is the \<open>Set\<close> held by the node's \<open>transaction()\<close>, in
  insertion order; \<open>isScheduled\<close> is the flag of the node's \<open>throttled\<close> job; \<open>vars\<close> are
  the variables captured by the node's closure.
\<close>

record node =
  kind :: kind
  state :: jsval
  listeners :: "nat list"
  isScheduled :: bool
  vars :: "nat \<Rightarrow> jsval"

text \<open>
  Instrumentation, not part of the program: \<open>Ran l\<close> is recorded whenever the tracked
  function of node \<open>l\<close> is executed, \<open>Observed t n v\<close> whenever the read function of node
  \<open>n\<close> returns \<open>v\<close> while \<open>t\<close> is the tracked listener.
\<close>

datatype event = Ran nat | Observed "nat option" nat jsval

text \<open>
  The runtime: the heap of nodes, the \<open>scopes\<close> stack of \<open>dependencyTracker\<close>, the
  microtask queue of the host (each entry is the \<open>perform\<close> closure of the \<open>throttled\<close>
  job of a node), the next free address and the instrumentation trace.
\<close>

record rt =
  nodes :: "nat \<Rightarrow> node"
  scopes :: "nat list"
  microtasks :: "nat list"
  next_id :: nat
  trace :: "event list"

definition upd :: "nat \<Rightarrow> (node \<Rightarrow> node) \<Rightarrow> rt \<Rightarrow> rt" where
  "upd n f st = st\<lparr>nodes := (nodes st)(n := f (nodes st n))\<rparr>"

definition record_event :: "event \<Rightarrow> rt \<Rightarrow> rt" where
  "record_event e st = st\<lparr>trace := trace st @ [e]\<rparr>"

text \<open>\<open>getTracked = () => scopes.at(-1)\<close>: \<open>undefined\<close> on the empty stack.\<close>

definition getTracked :: "rt \<Rightarrow> nat option" where
  "getTracked st = (if scopes st = [] then None else Some (last (scopes st)))"

text \<open>
  \<open>withTransaction(listener)\<close>: only a function is added, and a \<open>Set\<close> keeps one copy.
\<close>

definition withTransaction :: "nat \<Rightarrow> nat option \<Rightarrow> rt \<Rightarrow> rt" where
  "withTransaction n listener st =
     (case listener of
        None \<Rightarrow> st
      | Some l \<Rightarrow>
          if l \<in> set (listeners (nodes st n)) then st
          else upd n (\<lambda>nd. nd\<lparr>listeners := listeners nd @ [l]\<rparr>) st)"

text \<open>The \<open>schedule\<close> closure returned by \<open>throttled(job)\<close>.\<close>

definition schedule :: "nat \<Rightarrow> rt \<Rightarrow> rt" where
  "schedule l st =
     (if isScheduled (nodes st l) then st
      else (upd l (\<lambda>nd. nd\<lparr>isScheduled := True\<rparr>) st)\<lparr>microtasks := microtasks st @ [l]\<rparr>)"

text \<open>
  \<open>transact()\<close>: the set is captured and replaced by a new one, then every captured
  listener is called. Every listener is the \<open>schedule\<close> closure of a throttled job.
\<close>

definition transact :: "nat \<Rightarrow> rt \<Rightarrow> rt" where
  "transact n st =
     (let ls = listeners (nodes st n)
      in fold schedule ls (upd n (\<lambda>nd. nd\<lparr>listeners := []\<rparr>) st))"

text \<open>\<open>read\<close> of \<open>useSignal\<close> and of \<open>useComputed\<close> (the two are the same code).\<close>

definition read :: "nat \<Rightarrow> rt \<Rightarrow> jsval \<times> rt" where
  "read n st =
     (state (nodes st n),
      record_event (Observed (getTracked st) n (state (nodes st n)))
        (withTransaction n (getTracked st) st))"

text \<open>\<open>send\<close> of \<open>useSignal\<close>.\<close>

definition send :: "nat \<Rightarrow> jsval \<Rightarrow> rt \<Rightarrow> rt" where
  "send n v st =
     (if strict_neq (state (nodes st n)) v
      then transact n (upd n (\<lambda>nd. nd\<lparr>state := v\<rparr>) st)
      else st)"

text \<open>Running the closure of node \<open>self\<close>.\<close>

primrec run :: "nat \<Rightarrow> prog \<Rightarrow> rt \<Rightarrow> jsval \<times> rt" where
  "run self (Ret v) st = (v, st)"
| "run self (Rd n k) st = (case read n st of (v, st') \<Rightarrow> run self (k v) st')"
| "run self (Get x k) st = run self (k (vars (nodes st self) x)) st"
| "run self (Put x v p) st = run self p (upd self (\<lambda>nd. nd\<lparr>vars := (vars nd)(x := v)\<rparr>) st)"

text \<open>
  \<open>withTracking(onChange, perform)\<close>. At both call sites of the library \<open>perform\<close> is the
  closure of the node whose throttled job is \<open>onChange\<close>.
\<close>

definition withTracking :: "nat \<Rightarrow> prog \<Rightarrow> rt \<Rightarrow> jsval \<times> rt" where
  "withTracking onChange p st =
     (case run onChange p (record_event (Ran onChange) (st\<lparr>scopes := scopes st @ [onChange]\<rparr>)) of
        (v, st') \<Rightarrow> (v, st'\<lparr>scopes := butlast (scopes st')\<rparr>))"

text \<open>
  The job given to \<open>throttled\<close>: for a computed node the recompute of \<open>useComputed\<close>, for
  an effect the re-run of \<open>useEffect\<close>. A signal has no job; the queue never holds one.
\<close>

definition job :: "nat \<Rightarrow> rt \<Rightarrow> rt" where
  "job l st =
     (case kind (nodes st l) of
        Signal \<Rightarrow> st
      | Computed p \<Rightarrow>
          (case withTracking l p st of
             (v, st') \<Rightarrow>
               if strict_neq (state (nodes st' l)) v
               then transact l (upd l (\<lambda>nd. nd\<lparr>state := v\<rparr>) st')
               else st')
      | Effect p \<Rightarrow> snd (withTracking l p st))"

text \<open>The \<open>perform\<close> closure of \<open>throttled\<close>: the job, then the flag is cleared.\<close>

definition perform :: "nat \<Rightarrow> rt \<Rightarrow> rt" where
  "perform l st = upd l (\<lambda>nd. nd\<lparr>isScheduled := False\<rparr>) (job l st)"

text \<open>The host runs the oldest queued microtask.\<close>

definition tick :: "rt \<Rightarrow> rt" where
  "tick st =
     (case microtasks st of
        [] \<Rightarrow> st
      | l # q \<Rightarrow> perform l (st\<lparr>microtasks := q\<rparr>))"

text \<open>
  The host drains the microtask queue; jobs queued meanwhile are run too. The fuel
  bounds the number of microtasks run.
\<close>

fun flush :: "nat \<Rightarrow> rt \<Rightarrow> rt" where
  "flush 0 st = st"
| "flush (Suc k) st = (if microtasks st = [] then st else flush k (tick st))"

definition new_node :: "kind \<Rightarrow> jsval \<Rightarrow> (nat \<Rightarrow> jsval) \<Rightarrow> node" where
  "new_node kd v env =
     \<lparr>kind = kd, state = v, listeners = [], isScheduled = False, vars = env\<rparr>"

definition alloc :: "node \<Rightarrow> rt \<Rightarrow> nat \<times> rt" where
  "alloc nd st =
     (next_id st, st\<lparr>nodes := (nodes st)(next_id st := nd), next_id := Suc (next_id st)\<rparr>)"

text \<open>\<open>useSignal(initial)\<close>; the address returned stands for the pair \<open>[read, send]\<close>.\<close>

definition useSignal :: "jsval \<Rightarrow> rt \<Rightarrow> nat \<times> rt" where
  "useSignal initial st = alloc (new_node Signal initial (\<lambda>x. JUndefined)) st"

text \<open>
  \<open>useComputed(compute)\<close>, for a closure \<open>compute\<close> whose captured variables start as
  \<open>env\<close>: the first evaluation runs under tracking while \<open>state\<close> is not yet initialised
  (a closure that read its own node there would throw; the model gives it \<open>undefined\<close>).
\<close>

definition useComputedEnv :: "(nat \<Rightarrow> jsval) \<Rightarrow> prog \<Rightarrow> rt \<Rightarrow> nat \<times> rt" where
  "useComputedEnv env compute st =
     (case alloc (new_node (Computed compute) JUndefined env) st of
        (c, st1) \<Rightarrow>
          (case withTracking c compute st1 of
             (v, st2) \<Rightarrow> (c, upd c (\<lambda>nd. nd\<lparr>state := v\<rparr>) st2)))"

definition useComputed :: "prog \<Rightarrow> rt \<Rightarrow> nat \<times> rt" where
  "useComputed compute st = useComputedEnv (\<lambda>x. JUndefined) compute st"

text \<open>\<open>useEffect(perform)\<close>\<close>

definition useEffect :: "prog \<Rightarrow> rt \<Rightarrow> nat \<times> rt" where
  "useEffect p st =
     (case alloc (new_node (Effect p) JUndefined (\<lambda>x. JUndefined)) st of
        (e, st1) \<Rightarrow> (e, snd (withTracking e p st1)))"

definition empty_rt :: rt where
  "empty_rt =
     \<lparr>nodes = (\<lambda>n. new_node Signal JUndefined (\<lambda>x. JUndefined)), scopes = [],
      microtasks = [], next_id = 0, trace = []\<rparr>"

section \<open>The observer runtime (\<open>signal\<close>, \<open>reductions\<close>, \<open>sample\<close>)\<close>

datatype error = TypeError | ReferenceError

text \<open>What a stepping function returns: the next state, or \<open>new Reduced(value)\<close>.\<close>

datatype step_result = Next jsval | Reduced jsval

text \<open>
  The observer closures the library creates. \<open>Reducing step t c\<close> is the arrow function
  of \<open>reductions\<close>: \<open>step\<close>, the derived signal \<open>t\<close> it writes, and the \<open>const cancel\<close> it
  closes over, which is \<open>None\<close> while that binding is not yet initialised and
  \<open>Some src\<close> once it holds the closure that deletes this observer from \<open>src\<close>.
  \<open>Sampling resample t\<close> is the arrow function of \<open>sample\<close>; \<open>resample\<close> reads signals
  with their getters, so it is a function of the signals' values. \<open>Callback k\<close> is an
  observer of the host program; the model records its calls.
\<close>

datatype observer =
  Reducing "jsval \<Rightarrow> jsval \<Rightarrow> step_result" nat "nat option"
| Sampling "(nat \<Rightarrow> jsval) \<Rightarrow> jsval" nat
| Callback nat

text \<open>The thunk remembered by a throttling scheduler; a signal only passes \<open>dispatch\<close>.\<close>

datatype thunk = Dispatch nat

text \<open>
  One signal: \<open>value\<close>, the \<open>observers\<close> set in insertion order, and the two variables
  of its \<open>createThrottlingScheduler(queueMicrotask)\<close>.
\<close>

record sig =
  "value" :: jsval
  observers :: "nat list"
  perform_thunk :: "thunk option"
  isUpdateScheduled :: bool

text \<open>
  Function values that can be stored as cancel handles: the closure returned by
  \<open>observe\<close>, the closure returned by \<open>batchCancels\<close> with its \<open>batch\<close> set of function
  addresses, and a function of the host program.
\<close>

datatype fn = Unobserve nat nat | BatchCancels "nat list" | Opaque

text \<open>
  The runtime: signals, observer closures and function values by address, the
  property stored under the \<open>__cancel__\<close> symbol of each object (\<open>JUndefined\<close> when
  absent), the microtask queue (each entry is the \<open>performUpdate\<close> of a signal's
  scheduler). The last three fields are instrumentation: the number of calls of a
  \<open>resample\<close> closure, the calls of host observers, the functions called.
\<close>

record rt0 =
  signals :: "nat \<Rightarrow> sig"
  observer_tab :: "nat \<Rightarrow> observer"
  fn_tab :: "nat \<Rightarrow> fn"
  cancel_slot :: "nat \<Rightarrow> jsval"
  updates :: "nat list"
  next_sig :: nat
  next_obs :: nat
  next_fn :: nat
  resamples :: nat
  notified :: "(nat \<times> jsval) list"
  called :: "nat list"

definition upd_sig :: "nat \<Rightarrow> (sig \<Rightarrow> sig) \<Rightarrow> rt0 \<Rightarrow> rt0" where
  "upd_sig n f st = st\<lparr>signals := (signals st)(n := f (signals st n))\<rparr>"

text \<open>The closure returned by \<open>createThrottlingScheduler(queueMicrotask)\<close>.\<close>

definition throttle :: "nat \<Rightarrow> thunk \<Rightarrow> rt0 \<Rightarrow> rt0" where
  "throttle n th st =
     (let st1 = upd_sig n (\<lambda>s. s\<lparr>perform_thunk := Some th\<rparr>) st
      in if isUpdateScheduled (signals st1 n) then st1
         else (upd_sig n (\<lambda>s. s\<lparr>isUpdateScheduled := True\<rparr>) st1)
                \<lparr>updates := updates st1 @ [n]\<rparr>)"

definition setValue :: "nat \<Rightarrow> jsval \<Rightarrow> rt0 \<Rightarrow> rt0" where
  "setValue n nxt st =
     (if strict_neq (value (signals st n)) nxt
      then throttle n (Dispatch n) (upd_sig n (\<lambda>s. s\<lparr>value := nxt\<rparr>) st)
      else st)"

definition getValue :: "nat \<Rightarrow> rt0 \<Rightarrow> jsval" where
  "getValue n st = value (signals st n)"

text \<open>\<open>observers.delete(observer)\<close>\<close>

definition unobserve :: "nat \<Rightarrow> nat \<Rightarrow> rt0 \<Rightarrow> rt0" where
  "unobserve n ob st = upd_sig n (\<lambda>s. s\<lparr>observers := removeAll ob (observers s)\<rparr>) st"

text \<open>Calling the observer closure at address \<open>ob\<close> with \<open>v\<close>.\<close>

definition call_observer :: "nat \<Rightarrow> jsval \<Rightarrow> rt0 \<Rightarrow> error + rt0" where
  "call_observer ob v st =
     (case observer_tab st ob of
        Callback k \<Rightarrow> Inr (st\<lparr>notified := notified st @ [(k, v)]\<rparr>)
      | Sampling resample t \<Rightarrow>
          Inr (setValue t (resample (\<lambda>n. getValue n st)) (st\<lparr>resamples := Suc (resamples st)\<rparr>))
      | Reducing step t c \<Rightarrow>
          (case step (getValue t st) v of
             Reduced r \<Rightarrow>
               (case c of
                  None \<Rightarrow> Inl ReferenceError
                | Some src \<Rightarrow> Inr (setValue t r (unobserve src ob st)))
           | Next x \<Rightarrow> Inr (setValue t x st)))"

text \<open>
  \<open>dispatch\<close>: the loop over the live \<open>observers\<close> set. An observer deleted before its
  turn is not called; no observer of the model adds one.
\<close>

fun dispatch_loop :: "nat \<Rightarrow> nat list \<Rightarrow> rt0 \<Rightarrow> error + rt0" where
  "dispatch_loop n [] st = Inr st"
| "dispatch_loop n (ob # obs) st =
     (if ob \<in> set (observers (signals st n))
      then (case call_observer ob (value (signals st n)) st of
              Inl e \<Rightarrow> Inl e
            | Inr st' \<Rightarrow> dispatch_loop n obs st')
      else dispatch_loop n obs st)"

definition dispatch :: "nat \<Rightarrow> rt0 \<Rightarrow> error + rt0" where
  "dispatch n st = dispatch_loop n (observers (signals st n)) st"

fun run_thunk :: "thunk \<Rightarrow> rt0 \<Rightarrow> error + rt0" where
  "run_thunk (Dispatch n) st = dispatch n st"

text \<open>\<open>performUpdate\<close> of the scheduler of signal \<open>n\<close>.\<close>

definition performUpdate :: "nat \<Rightarrow> rt0 \<Rightarrow> error + rt0" where
  "performUpdate n st =
     (case (case perform_thunk (signals st n) of
              None \<Rightarrow> Inr st
            | Some th \<Rightarrow> run_thunk th st) of
        Inl e \<Rightarrow> Inl e
      | Inr st' \<Rightarrow> Inr (upd_sig n (\<lambda>s. s\<lparr>isUpdateScheduled := False\<rparr>) st'))"

text \<open>The host runs the oldest queued microtask, and drains the queue.\<close>

definition tick0 :: "rt0 \<Rightarrow> error + rt0" where
  "tick0 st =
     (case updates st of
        [] \<Rightarrow> Inr st
      | n # q \<Rightarrow> performUpdate n (st\<lparr>updates := q\<rparr>))"

fun flush0 :: "nat \<Rightarrow> rt0 \<Rightarrow> error + rt0" where
  "flush0 0 st = Inr st"
| "flush0 (Suc k) st =
     (if updates st = [] then Inr st
      else (case tick0 st of Inl e \<Rightarrow> Inl e | Inr st' \<Rightarrow> flush0 k st'))"

text \<open>\<open>signal(initial)\<close>; the address stands for the pair \<open>[getValue, setValue]\<close>.\<close>

definition signal :: "jsval \<Rightarrow> rt0 \<Rightarrow> nat \<times> rt0" where
  "signal initial st =
     (next_sig st,
      st\<lparr>signals := (signals st)(next_sig st :=
            \<lparr>value = initial, observers = [], perform_thunk = None,
             isUpdateScheduled = False\<rparr>),
         next_sig := Suc (next_sig st)\<rparr>)"

definition new_observer :: "observer \<Rightarrow> rt0 \<Rightarrow> nat \<times> rt0" where
  "new_observer ob st =
     (next_obs st,
      st\<lparr>observer_tab := (observer_tab st)(next_obs st := ob), next_obs := Suc (next_obs st)\<rparr>)"

definition new_fn :: "fn \<Rightarrow> rt0 \<Rightarrow> nat \<times> rt0" where
  "new_fn f st =
     (next_fn st, st\<lparr>fn_tab := (fn_tab st)(next_fn st := f), next_fn := Suc (next_fn st)\<rparr>)"

text \<open>
  \<open>getValue.observe(observer)\<close>: the observer is called with the current value, then
  added; the result is the address of the closure that deletes it.
\<close>

definition observe :: "nat \<Rightarrow> nat \<Rightarrow> rt0 \<Rightarrow> error + nat \<times> rt0" where
  "observe n ob st =
     (case call_observer ob (value (signals st n)) st of
        Inl e \<Rightarrow> Inl e
      | Inr st1 \<Rightarrow>
          Inr (new_fn (Unobserve n ob)
                 (if ob \<in> set (observers (signals st1 n)) then st1
                  else upd_sig n (\<lambda>s. s\<lparr>observers := observers s @ [ob]\<rparr>) st1)))"

subsection \<open>The cancellation protocol\<close>

text \<open>
  \<open>setCancel(object, cancel)\<close>: \<open>object\<close> is the address of an object, \<open>cancel\<close> any value.
  The getter of signal \<open>n\<close> is the object at address \<open>n\<close>.
\<close>

definition setCancel :: "nat \<Rightarrow> jsval \<Rightarrow> rt0 \<Rightarrow> error + nat \<times> rt0" where
  "setCancel object c st =
     (if \<not> is_function c then Inl TypeError
      else Inr (object, st\<lparr>cancel_slot := (cancel_slot st)(object := c)\<rparr>))"

text \<open>Calling a function value that is not a batch.\<close>

definition call_plain :: "nat \<Rightarrow> rt0 \<Rightarrow> rt0" where
  "call_plain f st =
     (case fn_tab st f of
        Unobserve n ob \<Rightarrow> unobserve n ob (st\<lparr>called := called st @ [f]\<rparr>)
      | BatchCancels fs \<Rightarrow> st\<lparr>called := called st @ [f]\<rparr>
      | Opaque \<Rightarrow> st\<lparr>called := called st @ [f]\<rparr>)"

text \<open>
  Calling a function value. The closure returned by \<open>batchCancels\<close> calls every member
  of its \<open>batch\<close> and clears it (a batch inside a batch is not followed).
\<close>

definition invoke :: "nat \<Rightarrow> rt0 \<Rightarrow> rt0" where
  "invoke f st =
     (case fn_tab st f of
        BatchCancels fs \<Rightarrow>
          (let st1 = fold call_plain fs (st\<lparr>called := called st @ [f]\<rparr>)
           in st1\<lparr>fn_tab := (fn_tab st1)(f := BatchCancels [])\<rparr>)
      | Unobserve n ob \<Rightarrow> call_plain f st
      | Opaque \<Rightarrow> call_plain f st)"

text \<open>\<open>cancel(cancellable)\<close>\<close>

definition cancel :: "nat \<Rightarrow> rt0 \<Rightarrow> rt0" where
  "cancel cancellable st =
     (case cancel_slot st cancellable of
        JFn f \<Rightarrow> invoke f st
      | JUndefined \<Rightarrow> st | JNull \<Rightarrow> st | JBool b \<Rightarrow> st | JNum i \<Rightarrow> st | JNaN \<Rightarrow> st
      | JStr s \<Rightarrow> st | JObj a \<Rightarrow> st)"

text \<open>
  \<open>batchCancels(cancels)\<close>: \<open>new Set(cancels)\<close> keeps the first occurrence of each
  function, in order.
\<close>

definition batchCancels :: "nat list \<Rightarrow> rt0 \<Rightarrow> nat \<times> rt0" where
  "batchCancels cancels st = new_fn (BatchCancels (rev (remdups (rev cancels)))) st"

subsection \<open>Reductions and sampling\<close>

text \<open>
  \<open>reductions(step, value, initial)\<close>. The arrow function is created first and passed to
  \<open>observe\<close>, which calls it at once; \<open>const cancel\<close> is initialised only when \<open>observe\<close>
  has returned.
\<close>

definition reductions ::
  "(jsval \<Rightarrow> jsval \<Rightarrow> step_result) \<Rightarrow> nat \<Rightarrow> jsval \<Rightarrow> rt0 \<Rightarrow> error + nat \<times> rt0" where
  "reductions step src initial st =
     (case signal initial st of
        (t, st1) \<Rightarrow>
          (case new_observer (Reducing step t None) st1 of
             (ob, st2) \<Rightarrow>
               (case observe src ob st2 of
                  Inl e \<Rightarrow> Inl e
                | Inr (c, st3) \<Rightarrow>
                    setCancel t (JFn c)
                      (st3\<lparr>observer_tab :=
                             (observer_tab st3)(ob := Reducing step t (Some src))\<rparr>))))"

text \<open>\<open>takingWhile(predicate)(step)\<close> and \<open>stepForward\<close>\<close>

definition takingWhile ::
  "(jsval \<Rightarrow> bool) \<Rightarrow> (jsval \<Rightarrow> jsval \<Rightarrow> step_result) \<Rightarrow> jsval \<Rightarrow> jsval \<Rightarrow> step_result" where
  "takingWhile predicate step s v = (if predicate v then step s v else Reduced s)"

definition stepForward :: "jsval \<Rightarrow> jsval \<Rightarrow> step_result" where
  "stepForward s v = Next v"

text \<open>\<open>triggers.map(upstream => upstream.observe(() => setDownstream(resample())))\<close>\<close>

fun observe_all :: "nat list \<Rightarrow> observer \<Rightarrow> rt0 \<Rightarrow> error + nat list \<times> rt0" where
  "observe_all [] obsv st = Inr ([], st)"
| "observe_all (u # us) obsv st =
     (case new_observer obsv st of
        (ob, st1) \<Rightarrow>
          (case observe u ob st1 of
             Inl e \<Rightarrow> Inl e
           | Inr (c, st2) \<Rightarrow>
               (case observe_all us obsv st2 of
                  Inl e \<Rightarrow> Inl e
                | Inr (cs, st3) \<Rightarrow> Inr (c # cs, st3))))"

text \<open>\<open>sample(triggers, resample)\<close>\<close>

definition sample :: "nat list \<Rightarrow> ((nat \<Rightarrow> jsval) \<Rightarrow> jsval) \<Rightarrow> rt0 \<Rightarrow> error + nat \<times> rt0" where
  "sample triggers resample st =
     (case signal (resample (\<lambda>n. getValue n st)) (st\<lparr>resamples := Suc (resamples st)\<rparr>) of
        (d, st1) \<Rightarrow>
          (case observe_all triggers (Sampling resample d) st1 of
             Inl e \<Rightarrow> Inl e
           | Inr (cs, st2) \<Rightarrow>
               (case batchCancels cs st2 of
                  (b, st3) \<Rightarrow> setCancel d (JFn b) st3)))"

definition empty_rt0 :: rt0 where
  "empty_rt0 =
     \<lparr>signals = (\<lambda>n. \<lparr>value = JUndefined, observers = [], perform_thunk = None,
                       isUpdateScheduled = False\<rparr>),
      observer_tab = (\<lambda>n. Callback 0), fn_tab = (\<lambda>n. Opaque),
      cancel_slot = (\<lambda>n. JUndefined), updates = [], next_sig = 0, next_obs = 0,
      next_fn = 0, resamples = 0, notified = [], called = []\<rparr>"

text \<open>The \<open>+\<close> of the language on numbers.\<close>

fun js_add :: "jsval \<Rightarrow> jsval \<Rightarrow> jsval" where
  "js_add (JNum a) (JNum b) = JNum (a + b)"
| "js_add a b = JNaN"

section \<open>The stores\<close>

text \<open>
  An effect is the address of a promise. A store keeps the asynchronous functions that
  are suspended at \<open>await effect\<close>, oldest first; \<open>sent\<close> is instrumentation, the messages
  \<open>send\<close> was called with.
\<close>

record store =
  store_rt :: rt
  store_state :: nat
  awaiting :: "nat list"
  sent :: "jsval list"



text \<open>\<open>useStore({init, update})\<close> of the tracking runtime; \<open>init\<close> is the result of \<open>init()\<close>.\<close>

definition useStore :: "jsval \<times> nat list \<Rightarrow> rt \<Rightarrow> store" where
  "useStore init r =
     (case useSignal (fst init) r of
        (s, r1) \<Rightarrow> \<lparr>store_rt = r1, store_state = s, awaiting = snd init, sent = []\<rparr>)"





section \<open>\<open>takeValues\<close>\<close>



section \<open>Scenarios\<close>

text \<open>Reading the outcome of an operation that can throw.\<close>

definition throws :: "error \<Rightarrow> error + 'a \<Rightarrow> bool" where
  "throws e r = (case r of Inl e' \<Rightarrow> e' = e | Inr x \<Rightarrow> False)"

definition resamples_of :: "error + rt0 \<Rightarrow> nat option" where
  "resamples_of r = (case r of Inl e \<Rightarrow> None | Inr s \<Rightarrow> Some (resamples s))"

text \<open>
  \<open>const [x, setX] = signal(1)\<close>, \<open>const [y, setY] = signal(2)\<close>,
  \<open>const sum = sample([x, y], () => x() + y())\<close>: \<open>x\<close> is signal 0, \<open>y\<close> signal 1 and
  \<open>sum\<close> signal 2.
\<close>

definition sum_built :: "error + nat \<times> rt0" where
  "sum_built =
     (case signal (JNum 1) empty_rt0 of
        (x, s1) \<Rightarrow>
          (case signal (JNum 2) s1 of
             (y, s2) \<Rightarrow> sample [x, y] (\<lambda>\<sigma>. js_add (\<sigma> x) (\<sigma> y)) s2))"

text \<open>A host observer watches \<open>sum\<close>.\<close>

definition sum_watched :: "error + rt0" where
  "sum_watched =
     (case sum_built of
        Inl e \<Rightarrow> Inl e
      | Inr (d, s3) \<Rightarrow>
          (case new_observer (Callback 0) s3 of
             (ob, s4) \<Rightarrow>
               (case observe d ob s4 of Inl e \<Rightarrow> Inl e | Inr (c, s5) \<Rightarrow> Inr s5)))"

text \<open>\<open>setX(10); setY(20)\<close> in one synchronous run.\<close>

definition sum_written :: "error + rt0" where
  "sum_written =
     (case sum_watched of
        Inl e \<Rightarrow> Inl e
      | Inr s \<Rightarrow> Inr (setValue 1 (JNum 20) (setValue 0 (JNum 10) s)))"

text \<open>The host then runs three microtasks.\<close>

definition sum_flushed :: "error + rt0" where
  "sum_flushed = (case sum_written of Inl e \<Rightarrow> Inl e | Inr s \<Rightarrow> flush0 3 s)"

text \<open>A signal holding \<open>null\<close>, the source of a reduction that stops on \<open>null\<close>.\<close>

definition null_source :: rt0 where
  "null_source = snd (signal JNull empty_rt0)"

text \<open>A runtime with one signal of each kind holding 1.\<close>

definition one_signal :: rt where
  "one_signal = snd (useSignal (JNum 1) empty_rt)"

definition one_signal0 :: rt0 where
  "one_signal0 = snd (signal (JNum 1) empty_rt0)"

text \<open>Object 0 carries the cancel function 0, object 1 carries none.\<close>

definition one_cancel :: rt0 where
  "one_cancel = empty_rt0\<lparr>cancel_slot := (cancel_slot empty_rt0)(0 := JFn 0)\<rparr>"

section \<open>Specification vocabulary for the tracking runtime\<close>

text \<open>The stored values of all nodes.\<close>

definition vals :: "rt \<Rightarrow> nat \<Rightarrow> jsval" where
  "vals st = (\<lambda>n. state (nodes st n))"

text \<open>
  A pure tracked function only reads nodes; \<open>ev p \<sigma>\<close> is what it returns when the nodes
  hold the values \<open>\<sigma>\<close>, and \<open>rds p \<sigma>\<close> are the nodes it reads on the way.
\<close>

primrec pure :: "prog \<Rightarrow> bool" where
  "pure (Ret v) = True"
| "pure (Rd n k) = (\<forall>v. pure (k v))"
| "pure (Get x k) = False"
| "pure (Put x v p) = False"

primrec ev :: "prog \<Rightarrow> (nat \<Rightarrow> jsval) \<Rightarrow> jsval" where
  "ev (Ret v) \<sigma> = v"
| "ev (Rd n k) \<sigma> = ev (k (\<sigma> n)) \<sigma>"
| "ev (Get x k) \<sigma> = ev (k JUndefined) \<sigma>"
| "ev (Put x v p) \<sigma> = ev p \<sigma>"

primrec rds :: "prog \<Rightarrow> (nat \<Rightarrow> jsval) \<Rightarrow> nat set" where
  "rds (Ret v) \<sigma> = {}"
| "rds (Rd n k) \<sigma> = insert n (rds (k (\<sigma> n)) \<sigma>)"
| "rds (Get x k) \<sigma> = rds (k JUndefined) \<sigma>"
| "rds (Put x v p) \<sigma> = rds p \<sigma>"

text \<open>Every node a tracked function can read, on any path, satisfies \<open>P\<close>.\<close>

primrec reads_only :: "(nat \<Rightarrow> bool) \<Rightarrow> prog \<Rightarrow> bool" where
  "reads_only P (Ret v) = True"
| "reads_only P (Rd n k) = (P n \<and> (\<forall>v. reads_only P (k v)))"
| "reads_only P (Get x k) = (\<forall>v. reads_only P (k v))"
| "reads_only P (Put x v p) = reads_only P p"

text \<open>The events recorded between two states, and what they say.\<close>

definition new_events :: "rt \<Rightarrow> rt \<Rightarrow> event list" where
  "new_events st st' = drop (length (trace st)) (trace st')"

fun is_read_of :: "nat \<Rightarrow> nat \<Rightarrow> event \<Rightarrow> bool" where
  "is_read_of l n (Observed t m v) = (t = Some l \<and> m = n)"
| "is_read_of l n (Ran m) = False"

text \<open>The tracked function of \<open>l\<close> read node \<open>n\<close> among the events \<open>evs\<close>.\<close>

definition observed :: "nat \<Rightarrow> nat \<Rightarrow> event list \<Rightarrow> bool" where
  "observed l n evs = list_ex (is_read_of l n) evs"

text \<open>How often the tracked function of \<open>l\<close> was executed.\<close>

definition runs :: "nat \<Rightarrow> event list \<Rightarrow> nat" where
  "runs l evs = count_list evs (Ran l)"

text \<open>The values the tracked function of \<open>l\<close> read from node \<open>n\<close>, oldest first.\<close>

fun seen :: "nat \<Rightarrow> nat \<Rightarrow> event list \<Rightarrow> jsval list" where
  "seen l n [] = []"
| "seen l n (Observed t m v # evs) =
     (if t = Some l \<and> m = n then v # seen l n evs else seen l n evs)"
| "seen l n (Ran m # evs) = seen l n evs"


text \<open>
  What the host program does between microtasks, at top level: it creates nodes whose
  closures read nodes that exist, reads a node, writes a signal, or lets the oldest
  microtask run.
\<close>

inductive host_step :: "rt \<Rightarrow> rt \<Rightarrow> bool" where
  new_signal: "host_step st (snd (useSignal v st))"
| new_computed:
    "reads_only (\<lambda>n. n < next_id st) p \<Longrightarrow> host_step st (snd (useComputedEnv env p st))"
| new_effect: "reads_only (\<lambda>n. n < next_id st) p \<Longrightarrow> host_step st (snd (useEffect p st))"
| host_read: "host_step st (snd (read n st))"
| host_write: "kind (nodes st n) = Signal \<Longrightarrow> host_step st (send n v st)"
| run_microtask: "microtasks st \<noteq> [] \<Longrightarrow> host_step st (tick st)"

definition reachable :: "rt \<Rightarrow> bool" where
  "reachable st = host_step\<^sup>*\<^sup>* empty_rt st"

text \<open>
  Every event of \<open>evs\<close> is a read, under the tracked listener \<open>t\<close>, of a node's value
  in \<open>\<sigma>\<close>.
\<close>

definition tracked_reads :: "nat option \<Rightarrow> (nat \<Rightarrow> jsval) \<Rightarrow> event list \<Rightarrow> bool" where
  "tracked_reads t \<sigma> evs = (\<forall>e\<in>set evs. \<exists>n. e = Observed t n (\<sigma> n))"

section \<open>Scenarios of the tracking runtime\<close>
















text \<open>
  A computed node \<open>c\<close> with the pure function \<open>p\<close> is fresh when it stores what \<open>p\<close>
  returns on the current values and is registered on every node that evaluation reads.
\<close>

definition fresh :: "nat \<Rightarrow> prog \<Rightarrow> rt \<Rightarrow> bool" where
  "fresh c p st =
     (state (nodes st c) = ev p (vals st) \<and>
      (\<forall>n\<in>rds p (vals st). c \<in> set (listeners (nodes st n))))"

text \<open>
  The invariant of the states the host can reach: closures of computed nodes read older
  nodes only, every pure computed node is scheduled or fresh, and every scheduled job is
  in the microtask queue.
\<close>

definition tracking_inv :: "rt \<Rightarrow> bool" where
  "tracking_inv st =
     ((\<forall>c p. kind (nodes st c) = Computed p \<longrightarrow>
              c < next_id st \<and> reads_only (\<lambda>n. n < c) p) \<and>
      (\<forall>c p. kind (nodes st c) = Computed p \<and> pure p \<longrightarrow>
              isScheduled (nodes st c) \<or> fresh c p st) \<and>
      (\<forall>c. isScheduled (nodes st c) \<longrightarrow> c \<in> set (microtasks st)))"

text \<open>
  \<open>const [a, setA] = useSignal(0)\<close>, \<open>const b = useComputed(() => a() + a())\<close>: \<open>a\<close> is
  node 0 and \<open>b\<close> node 1; then \<open>setA(5)\<close>, then the queued microtask.
\<close>

definition double_prog :: prog where
  "double_prog = Rd 0 (\<lambda>v. Rd 0 (\<lambda>w. Ret (js_add v w)))"

definition doubled_built :: rt where
  "doubled_built =
     (case useSignal (JNum 0) empty_rt of (a, s1) \<Rightarrow> snd (useComputed double_prog s1))"

definition doubled_written :: rt where
  "doubled_written = send 0 (JNum 5) doubled_built"

definition doubled_flushed :: rt where
  "doubled_flushed = tick doubled_written"



text \<open>
  \<open>const [x, setX] = useSignal(0)\<close>, \<open>const [flag, setFlag] = useSignal(false)\<close>,
  \<open>const c = useComputed(() => flag() ? x() : 0)\<close>, \<open>useEffect(() => { x(); c() })\<close>:
  nodes 0, 1, 2 and 3. Then \<open>setFlag(true)\<close> and the queue is drained; then \<open>setX(5)\<close>
  and the queue is drained.
\<close>

definition mixed_built :: rt where
  "mixed_built =
     (case useSignal (JNum 0) empty_rt of
        (x, s1) \<Rightarrow>
          (case useSignal (JBool False) s1 of
             (flag, s2) \<Rightarrow>
               (case useComputed
                       (Rd flag (\<lambda>f. if f = JBool True then Rd x Ret else Ret (JNum 0))) s2 of
                  (c, s3) \<Rightarrow> snd (useEffect (Rd x (\<lambda>a. Rd c Ret)) s3))))"

definition mixed_switched :: rt where
  "mixed_switched = flush 5 (send 1 (JBool True) mixed_built)"

definition mixed_written :: rt where
  "mixed_written = send 0 (JNum 5) mixed_switched"

definition mixed_flushed :: rt where
  "mixed_flushed = flush 5 mixed_written"


section \<open>Properties\<close>

subsection \<open>Scheduling a list of listeners\<close>

lemma fold_schedule_trace: "trace (fold schedule ls st) = trace st"
  by (induction ls arbitrary: st) (auto simp: schedule_def upd_def)

lemma fold_schedule_state: "state (nodes (fold schedule ls st) m) = state (nodes st m)"
  by (induction ls arbitrary: st) (auto simp: schedule_def upd_def)

lemma fold_schedule_kind: "kind (nodes (fold schedule ls st) m) = kind (nodes st m)"
  by (induction ls arbitrary: st) (auto simp: schedule_def upd_def)

lemma fold_schedule_listeners:
  "listeners (nodes (fold schedule ls st) m) = listeners (nodes st m)"
  by (induction ls arbitrary: st) (auto simp: schedule_def upd_def)

lemma fold_schedule_vars: "vars (nodes (fold schedule ls st) m) = vars (nodes st m)"
  by (induction ls arbitrary: st) (auto simp: schedule_def upd_def)

lemma fold_schedule_scopes: "scopes (fold schedule ls st) = scopes st"
  by (induction ls arbitrary: st) (auto simp: schedule_def upd_def)

lemma fold_schedule_next_id: "next_id (fold schedule ls st) = next_id st"
  by (induction ls arbitrary: st) (auto simp: schedule_def upd_def)

lemma fold_schedule_isScheduled:
  "isScheduled (nodes (fold schedule ls st) m) = (m \<in> set ls \<or> isScheduled (nodes st m))"
  by (induction ls arbitrary: st) (auto simp: schedule_def upd_def)

lemma fold_schedule_microtasks:
  "\<exists>q. microtasks (fold schedule ls st) = microtasks st @ q \<and> distinct q \<and>
       set q = {l \<in> set ls. \<not> isScheduled (nodes st l)}"
proof (induction ls arbitrary: st)
  case Nil
  then show ?case by simp
next
  case (Cons a ls)
  show ?case
  proof (cases "isScheduled (nodes st a)")
    case True
    then have "schedule a st = st" by (simp add: schedule_def)
    with Cons[of st] True show ?thesis by auto
  next
    case False
    let ?s = "schedule a st"
    from Cons[of ?s] obtain q where q: "microtasks (fold schedule ls ?s) = microtasks ?s @ q"
      "distinct q" "set q = {l \<in> set ls. \<not> isScheduled (nodes ?s l)}" by blast
    have m: "microtasks ?s = microtasks st @ [a]" using False by (simp add: schedule_def upd_def)
    have i: "\<And>l. isScheduled (nodes ?s l) = (l = a \<or> isScheduled (nodes st l))"
      using False by (simp add: schedule_def upd_def)
    have "microtasks (fold schedule (a # ls) st) = microtasks st @ (a # q)"
      using q(1) m by simp
    moreover have "distinct (a # q)" using q(2,3) i by auto
    moreover have "set (a # q) = {l \<in> set (a # ls). \<not> isScheduled (nodes st l)}"
      using q(3) i False by auto
    ultimately show ?thesis by blast
  qed
qed

subsection \<open>Writes that do not change the value\<close>

text \<open>
  Claim C6. Writing a value that is not \<open>!==\<close> to the stored one leaves the whole
  runtime as it was, in the tracking runtime (\<open>send\<close>) and in the observer runtime
  (\<open>setValue\<close>): the stored value, the listeners, the scheduler flags and the
  microtask queue are unchanged, so nobody is notified. Conversely a write that
  changes the runtime at all was a write of a value \<open>!==\<close> to the stored one.
\<close>

theorem unchanged_write_is_noop:
  "(\<not> strict_neq (state (nodes st n)) v \<longrightarrow> send n v st = st) \<and>
   (\<not> strict_neq (value (signals s0 m)) w \<longrightarrow> setValue m w s0 = s0) \<and>
   (send n v st \<noteq> st \<longrightarrow> strict_neq (state (nodes st n)) v) \<and>
   (setValue m w s0 \<noteq> s0 \<longrightarrow> strict_neq (value (signals s0 m)) w)"
  by (simp add: send_def setValue_def)

theorem unchanged_write_is_noop_witness:
  "\<not> strict_neq (state (nodes one_signal 0)) (JNum 1) \<and>
   send 0 (JNum 1) one_signal = one_signal \<and>
   \<not> strict_neq (value (signals one_signal0 0)) (JNum 1) \<and>
   setValue 0 (JNum 1) one_signal0 = one_signal0"
proof -
  have h: "\<not> strict_neq (state (nodes one_signal 0)) (JNum 1)"
    by code_simp
  have h0: "\<not> strict_neq (value (signals one_signal0 0)) (JNum 1)"
    by code_simp
  from unchanged_write_is_noop [of one_signal 0 "JNum 1" one_signal0 0 "JNum 1"] h h0
  show ?thesis by blast
qed

subsection \<open>Writes defer propagation\<close>

text \<open>
  Claim C7. A write runs no tracked function and performs no read (the trace is
  unchanged), leaves the stored value of every other node as it was, and only queues
  microtasks: the queue grows by the listeners of the written signal that were not yet
  scheduled, each once, and by nothing when the value is unchanged. The write of the
  observer runtime likewise calls no observer and no \<open>resample\<close> closure, changes no
  other signal, and only queues the dispatch of the written signal.
\<close>

theorem write_defers_propagation:
  "trace (send n v st) = trace st \<and>
   (\<forall>m. state (nodes (send n v st) m) =
         (if m = n \<and> strict_neq (state (nodes st n)) v then v else state (nodes st m))) \<and>
   (\<forall>m. kind (nodes (send n v st) m) = kind (nodes st m)) \<and>
   (\<exists>q. microtasks (send n v st) = microtasks st @ q \<and> distinct q \<and>
        set q = (if strict_neq (state (nodes st n)) v
                 then {l \<in> set (listeners (nodes st n)). \<not> isScheduled (nodes st l)}
                 else {})) \<and>
   notified (setValue m w s0) = notified s0 \<and>
   resamples (setValue m w s0) = resamples s0 \<and>
   (\<forall>k. value (signals (setValue m w s0) k) =
         (if k = m \<and> strict_neq (value (signals s0 m)) w then w else value (signals s0 k))) \<and>
   updates (setValue m w s0) =
     updates s0 @
     (if strict_neq (value (signals s0 m)) w \<and> \<not> isUpdateScheduled (signals s0 m)
      then [m] else [])"
proof -
  let ?s = "upd n (\<lambda>nd. nd\<lparr>state := v\<rparr>) st"
  let ?c = "upd n (\<lambda>nd. nd\<lparr>listeners := []\<rparr>) ?s"
  have "\<exists>q. microtasks (fold schedule (listeners (nodes st n)) ?c) = microtasks ?c @ q \<and>
       distinct q \<and> set q = {l \<in> set (listeners (nodes st n)). \<not> isScheduled (nodes ?c l)}"
    by (rule fold_schedule_microtasks)
  moreover have "\<And>l. isScheduled (nodes ?c l) = isScheduled (nodes st l)"
    by (simp add: upd_def)
  moreover have "microtasks ?c = microtasks st"
    by (simp add: upd_def)
  ultimately have q: "\<exists>q. microtasks (fold schedule (listeners (nodes st n)) ?c) =
       microtasks st @ q \<and> distinct q \<and>
       set q = {l \<in> set (listeners (nodes st n)). \<not> isScheduled (nodes st l)}"
    by simp
  have o: "notified (setValue m w s0) = notified s0 \<and>
      resamples (setValue m w s0) = resamples s0 \<and>
      (\<forall>k. value (signals (setValue m w s0) k) =
         (if k = m \<and> strict_neq (value (signals s0 m)) w then w else value (signals s0 k))) \<and>
      updates (setValue m w s0) =
        updates s0 @
        (if strict_neq (value (signals s0 m)) w \<and> \<not> isUpdateScheduled (signals s0 m)
         then [m] else [])"
    by (simp add: setValue_def throttle_def upd_sig_def Let_def)
  have t: "trace (send n v st) = trace st \<and>
      (\<forall>m. state (nodes (send n v st) m) =
         (if m = n \<and> strict_neq (state (nodes st n)) v then v else state (nodes st m))) \<and>
      (\<forall>m. kind (nodes (send n v st) m) = kind (nodes st m)) \<and>
      (\<exists>q. microtasks (send n v st) = microtasks st @ q \<and> distinct q \<and>
        set q = (if strict_neq (state (nodes st n)) v
                 then {l \<in> set (listeners (nodes st n)). \<not> isScheduled (nodes st l)}
                 else {}))"
    using q
    by (simp add: send_def transact_def fold_schedule_trace fold_schedule_state
        fold_schedule_kind upd_def)
  from t o show ?thesis by blast
qed

subsection \<open>The cancellation protocol\<close>

lemma fold_call_plain_called: "called (fold call_plain fs st) = called st @ fs"
  by (induction fs arbitrary: st)
     (auto simp: call_plain_def unobserve_def upd_sig_def split: fn.splits)

lemma invoke_called: "\<exists>cs. called (invoke f st) = called st @ f # cs"
  by (auto simp: invoke_def call_plain_def unobserve_def upd_sig_def fold_call_plain_called
      Let_def split: fn.splits)

text \<open>
  Claim C9. \<open>setCancel\<close> throws a \<open>TypeError\<close> for a value \<open>d\<close> that is not a function; for
  a function \<open>c\<close> it stores \<open>c\<close> under the cancel symbol of the object, changes nothing
  else and returns the object. \<open>cancel\<close> calls the function stored on the object (the
  call is the next one recorded), and does nothing when the object carries none.
\<close>

theorem setCancel_cancel:
  "(\<not> is_function d \<longrightarrow> setCancel object d st = Inl TypeError) \<and>
   (is_function c \<longrightarrow>
      setCancel object c st =
        Inr (object, st\<lparr>cancel_slot := (cancel_slot st)(object := c)\<rparr>)) \<and>
   (cancel_slot st a = JFn f \<longrightarrow>
      cancel a st = invoke f st \<and> (\<exists>cs. called (cancel a st) = called st @ f # cs)) \<and>
   (\<not> is_function (cancel_slot st b) \<longrightarrow> cancel b st = st)"
proof -
  have "\<not> is_function (cancel_slot st b) \<Longrightarrow> cancel b st = st"
    by (cases "cancel_slot st b") (simp_all add: cancel_def)
  then show ?thesis
    using invoke_called [of f st] by (auto simp: setCancel_def cancel_def)
qed

theorem setCancel_cancel_witness:
  "\<not> is_function (JNum 3) \<and> setCancel 1 (JNum 3) one_cancel = Inl TypeError \<and>
   is_function (JFn 5) \<and>
   setCancel 1 (JFn 5) one_cancel =
     Inr (1, one_cancel\<lparr>cancel_slot := (cancel_slot one_cancel)(1 := JFn 5)\<rparr>) \<and>
   cancel_slot one_cancel 0 = JFn 0 \<and>
   cancel 0 one_cancel = invoke 0 one_cancel \<and>
   (\<exists>cs. called (cancel 0 one_cancel) = called one_cancel @ 0 # cs) \<and>
   \<not> is_function (cancel_slot one_cancel 1) \<and> cancel 1 one_cancel = one_cancel"
proof -
  have h1: "\<not> is_function (JNum 3)" and h2: "is_function (JFn 5)"
    by simp_all
  have h3: "cancel_slot one_cancel 0 = JFn 0"
    by code_simp
  have h4: "\<not> is_function (cancel_slot one_cancel 1)"
    by code_simp
  from setCancel_cancel [of "JNum 3" 1 one_cancel "JFn 5" 0 0 1] h1 h2 h3 h4
  show ?thesis by blast
qed

subsection \<open>Reductions\<close>

text \<open>
  On a later emission the binding \<open>cancel\<close> is initialised: when the stepping function
  returns \<open>Reduced r\<close>, the observer is deleted from the observers of the source (which
  are the only ones a dispatch calls), and the derived signal holds \<open>r\<close>.
\<close>

lemma reduced_on_emission:
  assumes "observer_tab st ob = Reducing step t (Some src)"
    and "step (getValue t st) v = Reduced r"
  shows "call_observer ob v st = Inr (setValue t r (unobserve src ob st))"
    and "ob \<notin> set (observers (signals (setValue t r (unobserve src ob st)) src))"
    and "getValue t (setValue t r (unobserve src ob st)) = r"
  using assms
  by (auto simp: call_observer_def getValue_def setValue_def unobserve_def throttle_def
      upd_sig_def strict_neq_def Let_def)

text \<open>
  Claim C5, where the code departs from it. When the stepping function returns
  \<open>Reduced\<close> for the value the source holds at subscription, the observer runs inside
  \<open>observe\<close>, before \<open>const cancel\<close> is initialised: \<open>cancel()\<close> throws a
  \<open>ReferenceError\<close>, and \<open>reductions\<close> returns no signal.
\<close>

theorem reductions_reduced_at_subscription:
  "src \<noteq> next_sig st \<Longrightarrow> step initial (value (signals st src)) = Reduced r \<Longrightarrow>
   reductions step src initial st = Inl ReferenceError"
  by (simp add: reductions_def signal_def new_observer_def observe_def call_observer_def
      getValue_def)

theorem reductions_reduced_at_subscription_witness:
  "0 \<noteq> next_sig null_source \<and>
   takingWhile not_nullish stepForward (JNum 0) (value (signals null_source 0)) =
     Reduced (JNum 0) \<and>
   reductions (takingWhile not_nullish stepForward) 0 (JNum 0) null_source =
     Inl ReferenceError"
proof -
  have h1: "0 \<noteq> next_sig null_source"
    by code_simp
  have h2: "takingWhile not_nullish stepForward (JNum 0) (value (signals null_source 0)) =
     Reduced (JNum 0)"
    by code_simp
  from reductions_reduced_at_subscription
    [of 0 null_source "takingWhile not_nullish stepForward" "JNum 0" "JNum 0"] h1 h2
  show ?thesis by blast
qed

subsection \<open>Sampling two signals\<close>

text \<open>
  Claim C8 as stated fails: in the scenario the \<open>resample\<close> closure has been called
  three times when the writes are done (by \<open>sample\<close> itself and by the two
  subscriptions) and five times when the queue is drained, so it is computed twice
  for the two writes, not once.
\<close>

theorem sample_resamples_twice:
  "resamples_of sum_written = Some 3 \<and> resamples_of sum_flushed = Some 5 \<and>
   resamples_of sum_flushed \<noteq> map_option Suc (resamples_of sum_written)"
  by code_simp

text \<open>
  Claim C8 as amended. After \<open>setX(10)\<close> and \<open>setY(20)\<close> in one synchronous run and three
  microtasks, the queue is empty, \<open>sum\<close> holds exactly 30, the \<open>resample\<close> closure has
  been computed twice since the writes (once in the dispatch of \<open>x\<close>, once in that of
  \<open>y\<close>), and the observer of \<open>sum\<close> has been called once since its subscription, with 30.
\<close>

theorem sample_sum_scenario:
  "(case sum_flushed of
      Inl e \<Rightarrow> False
    | Inr s \<Rightarrow>
        updates s = [] \<and> getValue 2 s = JNum 30 \<and> resamples s = 5 \<and>
        notified s = [(0, JNum 3), (0, JNum 30)]) \<and>
   (case sum_written of
      Inl e \<Rightarrow> False
    | Inr s \<Rightarrow>
        updates s = [0, 1] \<and> getValue 2 s = JNum 3 \<and> resamples s = 3 \<and>
        notified s = [(0, JNum 3)])"
  by code_simp

subsection \<open>The stores\<close>

lemma send_state: "state (nodes (send n v st) n) = v"
  by (auto simp: send_def transact_def fold_schedule_state upd_def strict_neq_def)

lemma read_state: "state (nodes (snd (read n st)) m) = state (nodes st m)"
  by (auto simp: read_def record_event_def withTransaction_def upd_def split: option.splits)






subsection \<open>Tracked runs\<close>

lemma read_fst [simp]: "fst (read n st) = state (nodes st n)"
  by (simp add: read_def)

lemma read_frame [simp]:
  "scopes (snd (read n st)) = scopes st"
  "microtasks (snd (read n st)) = microtasks st"
  "next_id (snd (read n st)) = next_id st"
  "state (nodes (snd (read n st)) m) = state (nodes st m)"
  "kind (nodes (snd (read n st)) m) = kind (nodes st m)"
  "isScheduled (nodes (snd (read n st)) m) = isScheduled (nodes st m)"
  "vars (nodes (snd (read n st)) m) = vars (nodes st m)"
  "trace (snd (read n st)) = trace st @ [Observed (getTracked st) n (state (nodes st n))]"
  by (auto simp: read_def record_event_def withTransaction_def upd_def split: option.splits)

lemma read_getTracked [simp]: "getTracked (snd (read n st)) = getTracked st"
  by (simp add: getTracked_def)

lemma read_listeners:
  "set (listeners (nodes (snd (read n st)) m)) =
     set (listeners (nodes st m)) \<union> (if m = n then set_option (getTracked st) else {})"
  by (auto simp: read_def record_event_def withTransaction_def upd_def split: option.splits)

lemma run_frame:
  "scopes (snd (run self p st)) = scopes st \<and>
   microtasks (snd (run self p st)) = microtasks st \<and>
   next_id (snd (run self p st)) = next_id st \<and>
   (\<forall>m. state (nodes (snd (run self p st)) m) = state (nodes st m)) \<and>
   (\<forall>m. kind (nodes (snd (run self p st)) m) = kind (nodes st m)) \<and>
   (\<forall>m. isScheduled (nodes (snd (run self p st)) m) = isScheduled (nodes st m))"
proof (induction p arbitrary: st)
  case (Ret v)
  show ?case by simp
next
  case (Rd n k)
  have "run self (Rd n k) st = run self (k (state (nodes st n))) (snd (read n st))"
    by (simp add: split_def)
  with Rd[OF rangeI, of "state (nodes st n)" "snd (read n st)"] show ?case by simp
next
  case (Get x k)
  from Get[OF rangeI, of "vars (nodes st self) x" st] show ?case by simp
next
  case (Put x v p)
  from Put[of "upd self (\<lambda>nd. nd\<lparr>vars := (vars nd)(x := v)\<rparr>) st"] show ?case
    by (simp add: upd_def)
qed


lemma observed_Cons [simp]:
  "observed l m (e # evs) = (is_read_of l m e \<or> observed l m evs)"
  by (simp add: observed_def)

lemma observed_Nil [simp]: "\<not> observed l m []"
  by (simp add: observed_def)

lemma observed_append [simp]:
  "observed l m (xs @ ys) = (observed l m xs \<or> observed l m ys)"
  by (simp add: observed_def)

lemma new_events_append [simp]: "new_events st (st'\<lparr>trace := trace st @ evs\<rparr>) = evs"
  by (simp add: new_events_def)

lemma run_trace:
  "\<exists>evs. trace (snd (run self p st)) = trace st @ evs \<and>
         tracked_reads (getTracked st) (vals st) evs \<and>
         (\<forall>m. set (listeners (nodes (snd (run self p st)) m)) =
              set (listeners (nodes st m)) \<union>
              {l. getTracked st = Some l \<and> observed l m evs})"
proof (induction p arbitrary: st)
  case (Ret v)
  show ?case by (simp add: tracked_reads_def)
next
  case (Rd n k)
  let ?s = "snd (read n st)"
  have r: "run self (Rd n k) st = run self (k (state (nodes st n))) ?s"
    by (simp add: split_def)
  from Rd[OF rangeI, of "state (nodes st n)" ?s]
  obtain evs where e: "trace (snd (run self (k (state (nodes st n))) ?s)) = trace ?s @ evs"
    "tracked_reads (getTracked ?s) (vals ?s) evs"
    "\<And>m. set (listeners (nodes (snd (run self (k (state (nodes st n))) ?s)) m)) =
              set (listeners (nodes ?s m)) \<union> {l. getTracked ?s = Some l \<and> observed l m evs}"
    by blast
  have v: "vals ?s = vals st" by (simp add: vals_def)
  let ?evs = "Observed (getTracked st) n (state (nodes st n)) # evs"
  have "trace (snd (run self (Rd n k) st)) = trace st @ ?evs"
    using e(1) r by simp
  moreover have "tracked_reads (getTracked st) (vals st) ?evs"
    using e(2) v by (auto simp: tracked_reads_def vals_def)
  moreover have "\<And>m. set (listeners (nodes (snd (run self (Rd n k) st)) m)) =
              set (listeners (nodes st m)) \<union> {l. getTracked st = Some l \<and> observed l m ?evs}"
    unfolding r e(3) by (auto simp: read_listeners)
  ultimately show ?case by blast
next
  case (Get x k)
  from Get[OF rangeI, of "vars (nodes st self) x" st] show ?case by simp
next
  case (Put x v p)
  let ?s = "upd self (\<lambda>nd. nd\<lparr>vars := (vars nd)(x := v)\<rparr>) st"
  have "getTracked ?s = getTracked st" "vals ?s = vals st" "trace ?s = trace st"
    "\<And>m. listeners (nodes ?s m) = listeners (nodes st m)"
    by (simp_all add: getTracked_def vals_def upd_def fun_eq_iff)
  with Put[of ?s] show ?case by simp
qed

lemma ev_rds_local:
  "\<forall>n\<in>rds p \<sigma>. \<sigma>' n = \<sigma> n \<Longrightarrow> ev p \<sigma>' = ev p \<sigma> \<and> rds p \<sigma>' = rds p \<sigma>"
proof (induction p)
  case (Ret v)
  show ?case by simp
next
  case (Rd n k)
  then have eq: "\<sigma>' n = \<sigma> n" by simp
  from Rd.prems have "\<forall>m\<in>rds (k (\<sigma> n)) \<sigma>. \<sigma>' m = \<sigma> m" by simp
  from Rd.IH[OF rangeI this] eq show ?case by simp
next
  case (Get x k)
  from Get.IH[OF rangeI, of JUndefined] Get.prems show ?case by simp
next
  case (Put x v p)
  then show ?case by simp
qed

lemma reads_only_rds: "reads_only P p \<Longrightarrow> n \<in> rds p \<sigma> \<Longrightarrow> P n"
  by (induction p) auto

lemma run_pure:
  "pure p \<Longrightarrow>
   fst (run self p st) = ev p (vals st) \<and>
   (\<forall>m. vars (nodes (snd (run self p st)) m) = vars (nodes st m)) \<and>
   (\<forall>m. set (listeners (nodes (snd (run self p st)) m)) =
        set (listeners (nodes st m)) \<union>
        (if m \<in> rds p (vals st) then set_option (getTracked st) else {}))"
proof (induction p arbitrary: st)
  case (Ret v)
  show ?case by simp
next
  case (Rd n k)
  let ?s = "snd (read n st)"
  have r: "run self (Rd n k) st = run self (k (state (nodes st n))) ?s"
    by (simp add: split_def)
  have v: "vals ?s = vals st" by (simp add: vals_def)
  from Rd.prems have "pure (k (state (nodes st n)))" by simp
  from Rd.IH[OF rangeI this, of ?s] show ?case
    unfolding r by (auto simp: v read_listeners vals_def)
next
  case (Get x k)
  then show ?case by simp
next
  case (Put x v p)
  then show ?case by simp
qed


lemma withTracking_frame:
  "scopes (snd (withTracking l p st)) = scopes st"
  "microtasks (snd (withTracking l p st)) = microtasks st"
  "next_id (snd (withTracking l p st)) = next_id st"
  "state (nodes (snd (withTracking l p st)) m) = state (nodes st m)"
  "kind (nodes (snd (withTracking l p st)) m) = kind (nodes st m)"
  "isScheduled (nodes (snd (withTracking l p st)) m) = isScheduled (nodes st m)"
  using run_frame [of l p "record_event (Ran l) (st\<lparr>scopes := scopes st @ [l]\<rparr>)"]
  by (simp_all add: withTracking_def split_def record_event_def)

lemma withTracking_vals [simp]: "vals (snd (withTracking l p st)) = vals st"
  by (simp add: vals_def withTracking_frame)

lemma withTracking_trace:
  "\<exists>evs. trace (snd (withTracking l p st)) = trace st @ Ran l # evs \<and>
         tracked_reads (Some l) (vals st) evs \<and>
         (\<forall>m. set (listeners (nodes (snd (withTracking l p st)) m)) =
              set (listeners (nodes st m)) \<union> (if observed l m evs then {l} else {}))"
proof -
  let ?s = "record_event (Ran l) (st\<lparr>scopes := scopes st @ [l]\<rparr>)"
  have g: "getTracked ?s = Some l" "vals ?s = vals st" "trace ?s = trace st @ [Ran l]"
    "\<And>m. listeners (nodes ?s m) = listeners (nodes st m)"
    by (simp_all add: getTracked_def record_event_def vals_def)
  from run_trace [of l p ?s] obtain evs where
    e: "trace (snd (run l p ?s)) = trace ?s @ evs"
       "tracked_reads (getTracked ?s) (vals ?s) evs"
       "\<And>m. set (listeners (nodes (snd (run l p ?s)) m)) =
              set (listeners (nodes ?s m)) \<union> {k. getTracked ?s = Some k \<and> observed k m evs}"
    by blast
  have "trace (snd (withTracking l p st)) = trace st @ Ran l # evs"
    using e(1) g(3) by (simp add: withTracking_def split_def)
  moreover have "tracked_reads (Some l) (vals st) evs"
    using e(2) g by simp
  moreover have "\<And>m. set (listeners (nodes (snd (withTracking l p st)) m)) =
              set (listeners (nodes st m)) \<union> (if observed l m evs then {l} else {})"
    using e(3) g by (auto simp: withTracking_def split_def)
  ultimately show ?thesis by blast
qed

lemma withTracking_pure:
  "pure p \<Longrightarrow>
   fst (withTracking l p st) = ev p (vals st) \<and>
   (\<forall>m. vars (nodes (snd (withTracking l p st)) m) = vars (nodes st m)) \<and>
   (\<forall>m. set (listeners (nodes (snd (withTracking l p st)) m)) =
        set (listeners (nodes st m)) \<union> (if m \<in> rds p (vals st) then {l} else {}))"
  using run_pure [of p l "record_event (Ran l) (st\<lparr>scopes := scopes st @ [l]\<rparr>)"]
  by (simp add: withTracking_def split_def getTracked_def record_event_def vals_def)

lemma transact_frame:
  "trace (transact n st) = trace st"
  "scopes (transact n st) = scopes st"
  "next_id (transact n st) = next_id st"
  "state (nodes (transact n st) m) = state (nodes st m)"
  "kind (nodes (transact n st) m) = kind (nodes st m)"
  "vars (nodes (transact n st) m) = vars (nodes st m)"
  "listeners (nodes (transact n st) m) = (if m = n then [] else listeners (nodes st m))"
  "isScheduled (nodes (transact n st) m) =
     (m \<in> set (listeners (nodes st n)) \<or> isScheduled (nodes st m))"
  by (simp_all add: transact_def Let_def fold_schedule_trace fold_schedule_scopes
      fold_schedule_next_id fold_schedule_state fold_schedule_kind fold_schedule_vars
      fold_schedule_listeners fold_schedule_isScheduled upd_def)

lemma fold_schedule_count:
  "count_list (microtasks (fold schedule ls st)) l =
     count_list (microtasks st) l +
     (if l \<in> set ls \<and> \<not> isScheduled (nodes st l) then 1 else 0)"
proof (induction ls arbitrary: st)
  case Nil
  show ?case by simp
next
  case (Cons a ls)
  show ?case
    unfolding fold_simps Cons.IH
    by (auto simp: schedule_def upd_def)
qed

lemma transact_count:
  "count_list (microtasks (transact n st)) l =
     count_list (microtasks st) l +
     (if l \<in> set (listeners (nodes st n)) \<and> \<not> isScheduled (nodes st l) then 1 else 0)"
  by (simp add: transact_def Let_def fold_schedule_count upd_def)


subsection \<open>Dynamic dependencies\<close>




subsection \<open>Batched writes and effects\<close>

lemma send_frame:
  "trace (send n v st) = trace st"
  "scopes (send n v st) = scopes st"
  "next_id (send n v st) = next_id st"
  "kind (nodes (send n v st) m) = kind (nodes st m)"
  "vars (nodes (send n v st) m) = vars (nodes st m)"
  "m \<noteq> n \<Longrightarrow> state (nodes (send n v st) m) = state (nodes st m)"
  "set (listeners (nodes (send n v st) m)) \<subseteq> set (listeners (nodes st m))"
  by (auto simp: send_def transact_frame upd_def)

lemma send_count:
  "count_list (microtasks (send n v st)) l =
     count_list (microtasks st) l +
     (if strict_neq (state (nodes st n)) v \<and> l \<in> set (listeners (nodes st n)) \<and>
         \<not> isScheduled (nodes st l) then 1 else 0)"
  by (auto simp: send_def transact_count upd_def)

lemma send_isScheduled:
  "isScheduled (nodes (send n v st) l) =
     (isScheduled (nodes st l) \<or>
      strict_neq (state (nodes st n)) v \<and> l \<in> set (listeners (nodes st n)))"
  by (auto simp: send_def transact_frame upd_def)









lemma tracked_reads_observed: "tracked_reads (Some l) \<sigma> evs \<Longrightarrow> observed e m evs \<Longrightarrow> e = l"
  by (induction evs) (auto simp: tracked_reads_def)



lemma job_Signal: "kind (nodes st l) = Signal \<Longrightarrow> job l st = st"
  by (simp add: job_def)

lemma job_Effect: "kind (nodes st l) = Effect p \<Longrightarrow> job l st = snd (withTracking l p st)"
  by (simp add: job_def)

lemma job_Computed:
  "kind (nodes st l) = Computed p \<Longrightarrow>
   job l st =
     (if strict_neq (state (nodes st l)) (fst (withTracking l p st))
      then transact l (upd l (\<lambda>nd. nd\<lparr>state := fst (withTracking l p st)\<rparr>)
             (snd (withTracking l p st)))
      else snd (withTracking l p st))"
  by (simp add: job_def split_def withTracking_frame)






subsection \<open>\<open>takeValues\<close>\<close>

lemma run_vars_other:
  "m \<noteq> self \<Longrightarrow> vars (nodes (snd (run self p st)) m) = vars (nodes st m)"
proof (induction p arbitrary: st)
  case (Ret v)
  show ?case by simp
next
  case (Rd n k)
  from Rd.IH[OF rangeI Rd.prems, of "state (nodes st n)" "snd (read n st)"]
  show ?case by (simp add: split_def)
next
  case (Get x k)
  from Get.IH[OF rangeI Get.prems, of "vars (nodes st self) x" st] show ?case by simp
next
  case (Put x v p)
  from Put.IH[OF Put.prems, of "upd self (\<lambda>nd. nd\<lparr>vars := (vars nd)(x := v)\<rparr>) st"] Put.prems
  show ?case by (simp add: upd_def)
qed

lemma withTracking_vars_other:
  "m \<noteq> l \<Longrightarrow> vars (nodes (snd (withTracking l p st)) m) = vars (nodes st m)"
  using run_vars_other [of m l p "record_event (Ran l) (st\<lparr>scopes := scopes st @ [l]\<rparr>)"]
  by (simp add: withTracking_def split_def record_event_def)

lemma perform_frame:
  "next_id (perform l st) = next_id st"
  "scopes (perform l st) = scopes st"
  "kind (nodes (perform l st) m) = kind (nodes st m)"
  "m \<noteq> l \<Longrightarrow> state (nodes (perform l st) m) = state (nodes st m)"
  "m \<noteq> l \<Longrightarrow> vars (nodes (perform l st) m) = vars (nodes st m)"
  by (cases "kind (nodes st l)";
      simp add: perform_def job_Signal job_Effect job_Computed upd_def withTracking_frame
        withTracking_vars_other transact_frame)+




lemma withTracking_listeners_mono:
  "set (listeners (nodes st m)) \<subseteq> set (listeners (nodes (snd (withTracking l p st)) m))"
  using withTracking_trace [of l p st] by auto

lemma useSignal_frame:
  "next_id (snd (useSignal v st)) = Suc (next_id st)"
  "microtasks (snd (useSignal v st)) = microtasks st"
  "scopes (snd (useSignal v st)) = scopes st"
  "trace (snd (useSignal v st)) = trace st"
  "m \<noteq> next_id st \<Longrightarrow> nodes (snd (useSignal v st)) m = nodes st m"
  "nodes (snd (useSignal v st)) (next_id st) = new_node Signal v (\<lambda>x. JUndefined)"
  by (simp_all add: useSignal_def alloc_def)

lemma useComputedEnv_frame:
  "next_id (snd (useComputedEnv env p st)) = Suc (next_id st)"
  "microtasks (snd (useComputedEnv env p st)) = microtasks st"
  "scopes (snd (useComputedEnv env p st)) = scopes st"
  "m \<noteq> next_id st \<Longrightarrow> state (nodes (snd (useComputedEnv env p st)) m) = state (nodes st m)"
  "m \<noteq> next_id st \<Longrightarrow> kind (nodes (snd (useComputedEnv env p st)) m) = kind (nodes st m)"
  "m \<noteq> next_id st \<Longrightarrow> vars (nodes (snd (useComputedEnv env p st)) m) = vars (nodes st m)"
  "m \<noteq> next_id st \<Longrightarrow>
     isScheduled (nodes (snd (useComputedEnv env p st)) m) = isScheduled (nodes st m)"
  "kind (nodes (snd (useComputedEnv env p st)) (next_id st)) = Computed p"
  "\<not> isScheduled (nodes (snd (useComputedEnv env p st)) (next_id st))"
  by (simp_all add: useComputedEnv_def alloc_def split_def upd_def withTracking_frame
      withTracking_vars_other new_node_def)

lemma useComputedEnv_listeners_mono:
  "m \<noteq> next_id st \<Longrightarrow>
   set (listeners (nodes st m)) \<subseteq> set (listeners (nodes (snd (useComputedEnv env p st)) m))"
  using withTracking_listeners_mono
    [of "st\<lparr>nodes := (nodes st)(next_id st := new_node (Computed p) JUndefined env),
            next_id := Suc (next_id st)\<rparr>" m "next_id st" p]
  by (simp add: useComputedEnv_def alloc_def split_def upd_def)

lemma useEffect_frame:
  "next_id (snd (useEffect p st)) = Suc (next_id st)"
  "microtasks (snd (useEffect p st)) = microtasks st"
  "scopes (snd (useEffect p st)) = scopes st"
  "m \<noteq> next_id st \<Longrightarrow> state (nodes (snd (useEffect p st)) m) = state (nodes st m)"
  "m \<noteq> next_id st \<Longrightarrow> kind (nodes (snd (useEffect p st)) m) = kind (nodes st m)"
  "m \<noteq> next_id st \<Longrightarrow> vars (nodes (snd (useEffect p st)) m) = vars (nodes st m)"
  "m \<noteq> next_id st \<Longrightarrow>
     isScheduled (nodes (snd (useEffect p st)) m) = isScheduled (nodes st m)"
  "kind (nodes (snd (useEffect p st)) (next_id st)) = Effect p"
  "\<not> isScheduled (nodes (snd (useEffect p st)) (next_id st))"
  by (simp_all add: useEffect_def alloc_def split_def upd_def withTracking_frame
      withTracking_vars_other new_node_def)

lemma useEffect_listeners_mono:
  "m \<noteq> next_id st \<Longrightarrow>
   set (listeners (nodes st m)) \<subseteq> set (listeners (nodes (snd (useEffect p st)) m))"
  using withTracking_listeners_mono
    [of "st\<lparr>nodes := (nodes st)(next_id st := new_node (Effect p) JUndefined (\<lambda>x. JUndefined)),
            next_id := Suc (next_id st)\<rparr>" m "next_id st" p]
  by (simp add: useEffect_def alloc_def split_def upd_def)

lemma tick_frame:
  "next_id (tick st) = next_id st"
  "scopes (tick st) = scopes st"
  "kind (nodes (tick st) m) = kind (nodes st m)"
  by (cases "microtasks st"; simp add: tick_def perform_frame)+






subsection \<open>Computed values\<close>

lemma fresh_mono:
  assumes "fresh c p st" and "vals st' = vals st"
    and "\<And>m. set (listeners (nodes st m)) \<subseteq> set (listeners (nodes st' m))"
  shows "fresh c p st'"
proof -
  have "state (nodes st' c) = state (nodes st c)"
    using assms(2) by (simp add: vals_def fun_eq_iff)
  with assms show ?thesis by (auto simp: fresh_def)
qed

lemma fresh_change:
  assumes f: "fresh c p st" and n: "n \<notin> rds p (vals st)" and c: "c \<noteq> n"
    and v: "vals st' = (vals st)(n := v)"
    and l: "\<And>m. m \<noteq> n \<Longrightarrow> set (listeners (nodes st m)) \<subseteq> set (listeners (nodes st' m))"
  shows "fresh c p st'"
proof -
  have "\<forall>m\<in>rds p (vals st). (vals st') m = (vals st) m"
    using n v by auto
  from ev_rds_local [OF this] have e: "ev p (vals st') = ev p (vals st)"
    "rds p (vals st') = rds p (vals st)" by simp_all
  have s: "state (nodes st' c) = state (nodes st c)"
    using v c by (simp add: vals_def fun_eq_iff)
  show ?thesis
    unfolding fresh_def e s using f n l by (fastforce simp: fresh_def)
qed

lemma reads_only_not_rds: "reads_only (\<lambda>n. n < c) p \<Longrightarrow> c \<le> k \<Longrightarrow> k \<notin> rds p \<sigma>"
  using reads_only_rds [of "\<lambda>n. n < c" p k \<sigma>] by auto

lemma vals_upd_other:
  "(\<And>m. m \<noteq> n \<Longrightarrow> state (nodes st' m) = state (nodes st m)) \<Longrightarrow>
   vals st' = (vals st)(n := state (nodes st' n))"
  by (auto simp: vals_def fun_eq_iff)

lemma useComputedEnv_fresh:
  assumes "pure p" and ro: "reads_only (\<lambda>n. n < next_id st) p"
  shows "fresh (next_id st) p (snd (useComputedEnv env p st))"
proof -
  let ?k = "next_id st"
  let ?s1 = "st\<lparr>nodes := (nodes st)(?k := new_node (Computed p) JUndefined env),
              next_id := Suc ?k\<rparr>"
  let ?w = "withTracking ?k p ?s1"
  let ?s' = "snd (useComputedEnv env p st)"
  have s': "?s' = upd ?k (\<lambda>nd. nd\<lparr>state := fst ?w\<rparr>) (snd ?w)"
    by (simp add: useComputedEnv_def alloc_def split_def)
  note wp = withTracking_pure [OF assms(1), of ?k ?s1]
  have nk: "\<And>\<sigma>. ?k \<notin> rds p \<sigma>" using ro by (rule reads_only_not_rds) simp
  have v: "vals ?s' = (vals ?s1)(?k := fst ?w)"
    unfolding s' by (auto simp: vals_def upd_def fun_eq_iff withTracking_frame)
  have "\<forall>m\<in>rds p (vals ?s1). (vals ?s') m = (vals ?s1) m"
    using nk v by auto
  from ev_rds_local [OF this] have e: "ev p (vals ?s') = ev p (vals ?s1)"
    "rds p (vals ?s') = rds p (vals ?s1)" by simp_all
  have st: "state (nodes ?s' ?k) = ev p (vals ?s1)"
    unfolding s' using wp by (simp add: upd_def)
  have li: "\<forall>n\<in>rds p (vals ?s1). ?k \<in> set (listeners (nodes ?s' n))"
    unfolding s' using wp nk by (auto simp: upd_def)
  show ?thesis
    unfolding fresh_def e using st li by simp
qed


lemma send_vals: "vals (send n v st) = (vals st)(n := v)"
  by (auto simp: vals_def fun_eq_iff send_state send_frame)

lemma send_listeners_other:
  "m \<noteq> n \<Longrightarrow> listeners (nodes (send n v st) m) = listeners (nodes st m)"
  by (simp add: send_def transact_frame upd_def)

lemma in_set_count: "(x \<in> set xs) = (0 < count_list xs x)"
  using count_list_0_iff [of xs x] by auto

lemma perform_Signal:
  "kind (nodes s0 l) = Signal \<Longrightarrow> perform l s0 = upd l (\<lambda>nd. nd\<lparr>isScheduled := False\<rparr>) s0"
  by (simp add: perform_def job_Signal)

lemma perform_Effect:
  assumes "kind (nodes s0 l) = Effect p"
  shows "vals (perform l s0) = vals s0"
    and "listeners (nodes (perform l s0) m) = listeners (nodes (snd (withTracking l p s0)) m)"
    and "isScheduled (nodes (perform l s0) m) = (m \<noteq> l \<and> isScheduled (nodes s0 m))"
    and "microtasks (perform l s0) = microtasks s0"
  using assms
  by (auto simp: perform_def job_Effect upd_def vals_def withTracking_frame)

lemma perform_Computed:
  assumes "kind (nodes s0 l) = Computed p"
  shows "vals (perform l s0) = (vals s0)(l := fst (withTracking l p s0))"
    and "m \<noteq> l \<Longrightarrow>
         listeners (nodes (perform l s0) m) = listeners (nodes (snd (withTracking l p s0)) m)"
    and "isScheduled (nodes (perform l s0) m) =
         (m \<noteq> l \<and> (isScheduled (nodes s0 m) \<or>
            strict_neq (state (nodes s0 l)) (fst (withTracking l p s0)) \<and>
            m \<in> set (listeners (nodes (snd (withTracking l p s0)) l))))"
    and "count_list (microtasks (perform l s0)) m =
         count_list (microtasks s0) m +
         (if strict_neq (state (nodes s0 l)) (fst (withTracking l p s0)) \<and>
             m \<in> set (listeners (nodes (snd (withTracking l p s0)) l)) \<and>
             \<not> isScheduled (nodes s0 m) then 1 else 0)"
proof -
  note j = job_Computed [OF assms]
  show "vals (perform l s0) = (vals s0)(l := fst (withTracking l p s0))"
    unfolding perform_def j
    by (auto simp: vals_def fun_eq_iff upd_def transact_frame withTracking_frame strict_neq_def)
  show "m \<noteq> l \<Longrightarrow>
         listeners (nodes (perform l s0) m) = listeners (nodes (snd (withTracking l p s0)) m)"
    unfolding perform_def j by (simp add: upd_def transact_frame)
  show "isScheduled (nodes (perform l s0) m) =
         (m \<noteq> l \<and> (isScheduled (nodes s0 m) \<or>
            strict_neq (state (nodes s0 l)) (fst (withTracking l p s0)) \<and>
            m \<in> set (listeners (nodes (snd (withTracking l p s0)) l))))"
    unfolding perform_def j by (auto simp: upd_def transact_frame withTracking_frame)
  show "count_list (microtasks (perform l s0)) m =
         count_list (microtasks s0) m +
         (if strict_neq (state (nodes s0 l)) (fst (withTracking l p s0)) \<and>
             m \<in> set (listeners (nodes (snd (withTracking l p s0)) l)) \<and>
             \<not> isScheduled (nodes s0 m) then 1 else 0)"
    unfolding perform_def j
    by (auto simp: upd_def transact_count transact_frame withTracking_frame)
qed

lemma inv_alloc_like:
  assumes inv: "tracking_inv st"
    and nx: "next_id st' = Suc (next_id st)"
    and mt: "microtasks st' = microtasks st"
    and fr: "\<And>m. m \<noteq> next_id st \<Longrightarrow>
               state (nodes st' m) = state (nodes st m) \<and>
               kind (nodes st' m) = kind (nodes st m) \<and>
               isScheduled (nodes st' m) = isScheduled (nodes st m) \<and>
               set (listeners (nodes st m)) \<subseteq> set (listeners (nodes st' m))"
    and nf: "\<not> isScheduled (nodes st' (next_id st))"
    and nk: "\<And>p. kind (nodes st' (next_id st)) = Computed p \<Longrightarrow>
               reads_only (\<lambda>n. n < next_id st) p \<and> (pure p \<longrightarrow> fresh (next_id st) p st')"
  shows "tracking_inv st'"
proof -
  let ?k = "next_id st"
  have old: "\<And>c p. kind (nodes st' c) = Computed p \<Longrightarrow> c \<noteq> ?k \<Longrightarrow>
      kind (nodes st c) = Computed p \<and> c < ?k \<and> reads_only (\<lambda>n. n < c) p"
    using inv fr by (auto simp: tracking_inv_def)
  have i1: "\<And>c p. kind (nodes st' c) = Computed p \<Longrightarrow>
      c < next_id st' \<and> reads_only (\<lambda>n. n < c) p"
  proof -
    fix c p assume a: "kind (nodes st' c) = Computed p"
    show "c < next_id st' \<and> reads_only (\<lambda>n. n < c) p"
    proof (cases "c = ?k")
      case True
      with a nk [of p] nx show ?thesis by simp
    next
      case False
      with old [OF a] nx show ?thesis by simp
    qed
  qed
  have i2: "\<And>c p. kind (nodes st' c) = Computed p \<Longrightarrow> pure p \<Longrightarrow>
      isScheduled (nodes st' c) \<or> fresh c p st'"
  proof -
    fix c p assume a: "kind (nodes st' c) = Computed p" "pure p"
    show "isScheduled (nodes st' c) \<or> fresh c p st'"
    proof (cases "c = ?k")
      case True
      with a nk [of p] show ?thesis by simp
    next
      case False
      note c = old [OF a(1) False]
      from inv c a(2) have "isScheduled (nodes st c) \<or> fresh c p st"
        by (auto simp: tracking_inv_def)
      then show ?thesis
      proof
        assume "isScheduled (nodes st c)" then show ?thesis using fr [OF False] by simp
      next
        assume f: "fresh c p st"
        have "fresh c p st'"
        proof (rule fresh_change [OF f])
          show "?k \<notin> rds p (vals st)" using c by (intro reads_only_not_rds [of c]) auto
          show "c \<noteq> ?k" by (rule False)
          show "vals st' = (vals st)(?k := state (nodes st' ?k))"
            by (rule vals_upd_other) (simp add: fr)
          show "\<And>m. m \<noteq> ?k \<Longrightarrow> set (listeners (nodes st m)) \<subseteq> set (listeners (nodes st' m))"
            by (simp add: fr)
        qed
        then show ?thesis ..
      qed
    qed
  qed
  have i3: "\<And>c. isScheduled (nodes st' c) \<Longrightarrow> c \<in> set (microtasks st')"
  proof -
    fix c assume a: "isScheduled (nodes st' c)"
    then have "c \<noteq> ?k" using nf by auto
    with a fr [of c] inv show "c \<in> set (microtasks st')"
      by (auto simp: tracking_inv_def mt)
  qed
  show ?thesis
    unfolding tracking_inv_def using i1 i2 i3 by blast
qed

lemma inv_mono:
  assumes inv: "tracking_inv st"
    and nx: "next_id st' = next_id st"
    and mt: "set (microtasks st) \<subseteq> set (microtasks st')"
    and fr: "\<And>m. state (nodes st' m) = state (nodes st m) \<and>
               kind (nodes st' m) = kind (nodes st m) \<and>
               isScheduled (nodes st' m) = isScheduled (nodes st m) \<and>
               set (listeners (nodes st m)) \<subseteq> set (listeners (nodes st' m))"
  shows "tracking_inv st'"
proof -
  have v: "vals st' = vals st" using fr by (simp add: vals_def)
  have "\<And>c p. fresh c p st \<Longrightarrow> fresh c p st'"
    by (rule fresh_mono [OF _ v]) (simp_all add: fr)
  with inv nx mt fr show ?thesis
    unfolding tracking_inv_def by (metis subsetD)
qed

lemma inv_new_signal: "tracking_inv st \<Longrightarrow> tracking_inv (snd (useSignal v st))"
  by (rule inv_alloc_like) (auto simp: useSignal_def alloc_def new_node_def)

lemma inv_new_computed:
  assumes "tracking_inv st" and "reads_only (\<lambda>n. n < next_id st) p"
  shows "tracking_inv (snd (useComputedEnv env p st))"
  using assms(1)
proof (rule inv_alloc_like)
  fix q assume "kind (nodes (snd (useComputedEnv env p st)) (next_id st)) = Computed q"
  then have "q = p" by (simp add: useComputedEnv_frame)
  with assms(2) useComputedEnv_fresh [of p st env]
  show "reads_only (\<lambda>n. n < next_id st) q \<and>
        (pure q \<longrightarrow> fresh (next_id st) q (snd (useComputedEnv env p st)))"
    by simp
qed (simp_all add: useComputedEnv_frame useComputedEnv_listeners_mono)

lemma inv_new_effect:
  assumes "tracking_inv st"
  shows "tracking_inv (snd (useEffect p st))"
  using assms(1)
  by (rule inv_alloc_like) (simp_all add: useEffect_frame useEffect_listeners_mono)

lemma inv_host_read: "tracking_inv st \<Longrightarrow> tracking_inv (snd (read n st))"
  by (rule inv_mono) (auto simp: read_listeners)


lemma inv_host_write:
  assumes inv: "tracking_inv st" and k: "kind (nodes st n) = Signal"
  shows "tracking_inv (send n v st)"
proof -
  let ?s' = "send n v st"
  have i1: "\<And>c p. kind (nodes ?s' c) = Computed p \<Longrightarrow>
      c < next_id ?s' \<and> reads_only (\<lambda>n. n < c) p"
    using inv by (simp add: tracking_inv_def send_frame)
  have i2: "\<And>c p. kind (nodes ?s' c) = Computed p \<Longrightarrow> pure p \<Longrightarrow>
      isScheduled (nodes ?s' c) \<or> fresh c p ?s'"
  proof -
    fix c p assume a: "kind (nodes ?s' c) = Computed p" "pure p"
    then have kc: "kind (nodes st c) = Computed p" by (simp add: send_frame)
    with k have cn: "c \<noteq> n" by auto
    show "isScheduled (nodes ?s' c) \<or> fresh c p ?s'"
    proof (cases "isScheduled (nodes ?s' c)")
      case True then show ?thesis ..
    next
      case False
      then have ns: "\<not> isScheduled (nodes st c)"
        and nl: "\<not> (strict_neq (state (nodes st n)) v \<and> c \<in> set (listeners (nodes st n)))"
        by (simp_all add: send_isScheduled)
      from inv kc a(2) ns have f: "fresh c p st" by (auto simp: tracking_inv_def)
      show ?thesis
      proof (cases "strict_neq (state (nodes st n)) v")
        case False
        then have "?s' = st" by (simp add: send_def)
        with f show ?thesis by simp
      next
        case True
        with nl have "c \<notin> set (listeners (nodes st n))" by simp
        with f have nr: "n \<notin> rds p (vals st)" by (auto simp: fresh_def)
        have "fresh c p ?s'"
          by (rule fresh_change [OF f nr cn send_vals]) (simp add: send_listeners_other)
        then show ?thesis ..
      qed
    qed
  qed
  have i3: "\<And>c. isScheduled (nodes ?s' c) \<Longrightarrow> c \<in> set (microtasks ?s')"
  proof -
    fix c assume "isScheduled (nodes ?s' c)"
    then have "isScheduled (nodes st c) \<or>
        strict_neq (state (nodes st n)) v \<and> c \<in> set (listeners (nodes st n))"
      by (simp add: send_isScheduled)
    moreover have "isScheduled (nodes st c) \<Longrightarrow> 0 < count_list (microtasks st) c"
      using inv by (simp add: tracking_inv_def in_set_count)
    ultimately have "0 < count_list (microtasks ?s') c"
      by (auto simp: send_count)
    then show "c \<in> set (microtasks ?s')" by (simp add: in_set_count)
  qed
  show ?thesis
    unfolding tracking_inv_def using i1 i2 i3 by blast
qed

lemma inv_perform:
  assumes inv: "tracking_inv st" and q: "microtasks st = l # q"
  shows "tracking_inv (perform l (st\<lparr>microtasks := q\<rparr>))"
proof -
  let ?s0 = "st\<lparr>microtasks := q\<rparr>"
  let ?s' = "perform l ?s0"
  have v0: "vals ?s0 = vals st" by (simp add: vals_def)
  have f0: "\<And>c p. fresh c p ?s0 = fresh c p st" by (simp add: fresh_def v0)
  have i1: "\<And>c p. kind (nodes ?s' c) = Computed p \<Longrightarrow>
      kind (nodes st c) = Computed p \<and> c < next_id ?s' \<and> reads_only (\<lambda>n. n < c) p"
    using inv by (simp add: tracking_inv_def perform_frame)
  have old: "\<And>c. c \<noteq> l \<Longrightarrow> isScheduled (nodes st c) \<Longrightarrow> 0 < count_list (microtasks ?s0) c"
    using inv q by (auto simp: tracking_inv_def in_set_count)
  show ?thesis
  proof (cases "kind (nodes st l)")
    case Signal
    then have p: "?s' = upd l (\<lambda>nd. nd\<lparr>isScheduled := False\<rparr>) ?s0"
      by (simp add: perform_Signal)
    have i2: "\<And>c p. kind (nodes ?s' c) = Computed p \<Longrightarrow> pure p \<Longrightarrow>
        isScheduled (nodes ?s' c) \<or> fresh c p ?s'"
    proof -
      fix c p assume a: "kind (nodes ?s' c) = Computed p" "pure p"
      from i1 [OF a(1)] Signal have cl: "c \<noteq> l" and kc: "kind (nodes st c) = Computed p"
        by auto
      from inv kc a(2) have "isScheduled (nodes st c) \<or> fresh c p st"
        by (auto simp: tracking_inv_def)
      moreover have "fresh c p st \<Longrightarrow> fresh c p ?s'"
        unfolding p by (rule fresh_mono) (auto simp: vals_def upd_def)
      ultimately show "isScheduled (nodes ?s' c) \<or> fresh c p ?s'"
        unfolding p using cl by (auto simp: upd_def)
    qed
    have i3: "\<And>c. isScheduled (nodes ?s' c) \<Longrightarrow> c \<in> set (microtasks ?s')"
      unfolding p using old by (auto simp: upd_def in_set_count split: if_splits)
    show ?thesis
      unfolding tracking_inv_def using i1 i2 i3 by blast
  next
    case (Effect pe)
    then have ke: "kind (nodes ?s0 l) = Effect pe" by simp
    note pe = perform_Effect [OF ke]
    have i2: "\<And>c p. kind (nodes ?s' c) = Computed p \<Longrightarrow> pure p \<Longrightarrow>
        isScheduled (nodes ?s' c) \<or> fresh c p ?s'"
    proof -
      fix c p assume a: "kind (nodes ?s' c) = Computed p" "pure p"
      from i1 [OF a(1)] Effect have cl: "c \<noteq> l" and kc: "kind (nodes st c) = Computed p"
        by auto
      from inv kc a(2) have "isScheduled (nodes st c) \<or> fresh c p st"
        by (auto simp: tracking_inv_def)
      moreover have "fresh c p st \<Longrightarrow> fresh c p ?s'"
      proof (rule fresh_mono)
        show "vals ?s' = vals st" using pe(1) v0 by simp
        show "\<And>m. set (listeners (nodes st m)) \<subseteq> set (listeners (nodes ?s' m))"
          using withTracking_listeners_mono [of ?s0 _ l pe] by (simp add: pe(2))
      qed
      ultimately show "isScheduled (nodes ?s' c) \<or> fresh c p ?s'"
        using cl by (auto simp: pe(3))
    qed
    have i3: "\<And>c. isScheduled (nodes ?s' c) \<Longrightarrow> c \<in> set (microtasks ?s')"
      using old by (auto simp: pe(3,4) in_set_count)
    show ?thesis
      unfolding tracking_inv_def using i1 i2 i3 by blast
  next
    case (Computed pc)
    then have kc0: "kind (nodes ?s0 l) = Computed pc" by simp
    note pc = perform_Computed [OF kc0]
    let ?w = "snd (withTracking l pc ?s0)"
    let ?v = "fst (withTracking l pc ?s0)"
    have mono: "\<And>m. set (listeners (nodes st m)) \<subseteq> set (listeners (nodes ?w m))"
      using withTracking_listeners_mono [of ?s0 _ l pc] by simp
    from inv Computed have ro: "reads_only (\<lambda>n. n < l) pc"
      by (auto simp: tracking_inv_def)
    have i2: "\<And>c p. kind (nodes ?s' c) = Computed p \<Longrightarrow> pure p \<Longrightarrow>
        isScheduled (nodes ?s' c) \<or> fresh c p ?s'"
    proof -
      fix c p assume a: "kind (nodes ?s' c) = Computed p" "pure p"
      from i1 [OF a(1)] have kc: "kind (nodes st c) = Computed p" by simp
      show "isScheduled (nodes ?s' c) \<or> fresh c p ?s'"
      proof (cases "c = l")
        case True
        with kc Computed have pp: "p = pc" by simp
        note wp = withTracking_pure [OF a(2), of l ?s0]
        have nl: "\<And>\<sigma>. l \<notin> rds pc \<sigma>" using ro by (rule reads_only_not_rds) simp
        have "\<forall>m\<in>rds pc (vals ?s0). (vals ?s') m = (vals ?s0) m"
          using nl pc(1) by auto
        from ev_rds_local [OF this] have e: "ev pc (vals ?s') = ev pc (vals ?s0)"
          "rds pc (vals ?s') = rds pc (vals ?s0)" by simp_all
        have st: "state (nodes ?s' l) = ev pc (vals ?s0)"
          using pc(1) wp pp by (simp add: vals_def fun_eq_iff)
        have li: "\<forall>n\<in>rds pc (vals ?s0). l \<in> set (listeners (nodes ?s' n))"
        proof
          fix n assume n: "n \<in> rds pc (vals ?s0)"
          then have "n \<noteq> l" using nl by auto
          with wp pp n show "l \<in> set (listeners (nodes ?s' n))" by (simp add: pc(2))
        qed
        have "fresh l pc ?s'"
          unfolding fresh_def e using st li by simp
        with True pp show ?thesis by simp
      next
        case False
        show ?thesis
        proof (cases "isScheduled (nodes ?s' c)")
          case True then show ?thesis ..
        next
          case ns': False
          then have ns: "\<not> isScheduled (nodes st c)"
            and nn: "\<not> (strict_neq (state (nodes ?s0 l)) ?v \<and> c \<in> set (listeners (nodes ?w l)))"
            using False by (simp_all add: pc(3))
          from inv kc a(2) ns have f: "fresh c p st" by (auto simp: tracking_inv_def)
          have "fresh c p ?s'"
          proof (cases "strict_neq (state (nodes ?s0 l)) ?v")
            case True
            with nn have "c \<notin> set (listeners (nodes ?w l))" by simp
            with mono [of l] have "c \<notin> set (listeners (nodes st l))" by auto
            with f have nr: "l \<notin> rds p (vals st)" by (auto simp: fresh_def)
            show ?thesis
            proof (rule fresh_change [OF f nr False])
              show "vals ?s' = (vals st)(l := ?v)" using pc(1) v0 by simp
              show "\<And>m. m \<noteq> l \<Longrightarrow> set (listeners (nodes st m)) \<subseteq> set (listeners (nodes ?s' m))"
                using mono by (simp add: pc(2))
            qed
          next
            case same: False
            then have "?v = state (nodes ?s0 l)" by (auto simp: strict_neq_def)
            then have "vals ?s' = vals st"
              using pc(1) by (auto simp: vals_def fun_eq_iff)
            moreover have "\<And>m. set (listeners (nodes st m)) \<subseteq> set (listeners (nodes ?s' m))"
            proof -
              fix m show "set (listeners (nodes st m)) \<subseteq> set (listeners (nodes ?s' m))"
              proof (cases "m = l")
                case True
                have "job l ?s0 = ?w" using same by (simp add: job_Computed [OF kc0])
                then have "listeners (nodes ?s' l) = listeners (nodes ?w l)"
                  by (simp add: perform_def upd_def)
                with mono [of l] True show ?thesis by simp
              next
                case False
                with mono [of m] show ?thesis by (simp add: pc(2))
              qed
            qed
            ultimately show ?thesis by (rule fresh_mono [OF f])
          qed
          then show ?thesis ..
        qed
      qed
    qed
    have i3: "\<And>c. isScheduled (nodes ?s' c) \<Longrightarrow> c \<in> set (microtasks ?s')"
    proof -
      fix c assume a: "isScheduled (nodes ?s' c)"
      then have cl: "c \<noteq> l" by (simp add: pc(3))
      from a have "isScheduled (nodes st c) \<or>
          strict_neq (state (nodes ?s0 l)) ?v \<and> c \<in> set (listeners (nodes ?w l))"
        by (simp add: pc(3))
      with old [OF cl] have "0 < count_list (microtasks ?s') c"
        by (auto simp: pc(4))
      then show "c \<in> set (microtasks ?s')" by (simp add: in_set_count)
    qed
    show ?thesis
      unfolding tracking_inv_def using i1 i2 i3 by blast
  qed
qed

lemma inv_step: "host_step st st' \<Longrightarrow> tracking_inv st \<Longrightarrow> tracking_inv st'"
proof (induction rule: host_step.induct)
  case (new_signal st v)
  then show ?case by (rule inv_new_signal)
next
  case (new_computed st p env)
  then show ?case by (intro inv_new_computed)
next
  case (new_effect st p)
  then show ?case by (intro inv_new_effect)
next
  case (host_read st n)
  then show ?case by (rule inv_host_read)
next
  case (host_write st n v)
  then show ?case by (intro inv_host_write)
next
  case (run_microtask st)
  then obtain l q where q: "microtasks st = l # q" by (cases "microtasks st") auto
  with inv_perform [OF run_microtask.prems q] show ?case by (simp add: tick_def)
qed

lemma inv_empty: "tracking_inv empty_rt"
  by (simp add: tracking_inv_def empty_rt_def new_node_def)

lemma reachable_inv: "reachable st \<Longrightarrow> tracking_inv st"
  unfolding reachable_def
  by (induction rule: rtranclp_induct) (auto intro: inv_empty inv_step)

lemma doubled_reachable:
  "reachable doubled_built \<and> reachable doubled_written \<and> reachable doubled_flushed"
proof -
  let ?s1 = "snd (useSignal (JNum 0) empty_rt)"
  have b: "doubled_built = snd (useComputedEnv (\<lambda>x. JUndefined) double_prog ?s1)"
    by (simp add: doubled_built_def useComputed_def split_def useSignal_def alloc_def)
  have "host_step empty_rt ?s1" by (rule host_step.new_signal)
  moreover have "reads_only (\<lambda>n. n < next_id ?s1) double_prog"
    by (simp add: double_prog_def useSignal_frame empty_rt_def)
  then have "host_step ?s1 doubled_built"
    unfolding b by (rule host_step.new_computed)
  ultimately have r1: "host_step\<^sup>*\<^sup>* empty_rt doubled_built" by simp
  have "kind (nodes doubled_built 0) = Signal"
    unfolding b by (simp add: useComputedEnv_frame useSignal_def alloc_def empty_rt_def new_node_def)
  then have "host_step doubled_built doubled_written"
    unfolding doubled_written_def by (rule host_step.host_write)
  with r1 have r2: "host_step\<^sup>*\<^sup>* empty_rt doubled_written" by simp
  have "microtasks doubled_written \<noteq> []" by code_simp
  then have "host_step doubled_written doubled_flushed"
    unfolding doubled_flushed_def by (rule host_step.run_microtask)
  with r2 have "host_step\<^sup>*\<^sup>* empty_rt doubled_flushed" by simp
  with r1 r2 show ?thesis by (simp add: reachable_def)
qed

lemma doubled_kind:
  "kind (nodes doubled_built 1) = Computed double_prog \<and>
   kind (nodes doubled_written 1) = Computed double_prog \<and>
   kind (nodes doubled_flushed 1) = Computed double_prog"
proof -
  have "kind (nodes doubled_built 1) = Computed double_prog"
    by (simp add: doubled_built_def useComputed_def split_def useSignal_def alloc_def
        empty_rt_def useComputedEnv_def upd_def withTracking_frame new_node_def)
  then show ?thesis
    by (simp add: doubled_written_def doubled_flushed_def tick_frame send_frame)
qed

text \<open>
  Claim C2 as stated fails. After \<open>setA(5)\<close>, a point the host reaches after the
  construction of \<open>b\<close>, reading \<open>b\<close> returns 0 while \<open>a() + a()\<close> on the current values
  is 10: the recompute is queued, not yet run.
\<close>

theorem stale_until_recomputed:
  "reachable doubled_written \<and>
   fst (read 1 doubled_written) = JNum 0 \<and>
   ev double_prog (vals doubled_written) = JNum 10 \<and>
   fst (read 1 doubled_written) \<noteq> ev double_prog (vals doubled_written)"
proof -
  have e: "state (nodes doubled_written 0) = JNum 5 \<and> fst (read 1 doubled_written) = JNum 0"
    by code_simp
  then have "ev double_prog (vals doubled_written) = JNum 10"
    by (simp add: double_prog_def vals_def)
  with e doubled_reachable show ?thesis by simp
qed

text \<open>
  Claim C2 as amended. At every point the host can reach, for every computed node \<open>c\<close>
  built from a pure function \<open>p\<close>: when no recompute of \<open>c\<close> is pending, reading \<open>c\<close>
  returns \<open>p\<close> evaluated on the current values, and \<open>c\<close> is registered on every node
  that evaluation reads; when a recompute is pending, it is in the microtask queue.
\<close>

theorem computed_fresh_or_queued:
  assumes "reachable st" and "kind (nodes st c) = Computed p" and "pure p"
  shows "(\<not> isScheduled (nodes st c) \<longrightarrow>
            fst (read c st) = ev p (vals st) \<and>
            (\<forall>n\<in>rds p (vals st). c \<in> set (listeners (nodes st n)))) \<and>
         (isScheduled (nodes st c) \<longrightarrow> c \<in> set (microtasks st))"
proof -
  note inv = reachable_inv [OF assms(1)]
  from inv assms(2,3) have "isScheduled (nodes st c) \<or> fresh c p st"
    unfolding tracking_inv_def by blast
  moreover from inv have "isScheduled (nodes st c) \<longrightarrow> c \<in> set (microtasks st)"
    unfolding tracking_inv_def by blast
  ultimately show ?thesis
    by (auto simp: fresh_def)
qed

theorem computed_fresh_or_queued_witness:
  "\<not> isScheduled (nodes doubled_flushed 1) \<and>
   fst (read 1 doubled_flushed) = ev double_prog (vals doubled_flushed) \<and>
   1 \<in> set (listeners (nodes doubled_flushed 0)) \<and>
   fst (read 1 doubled_flushed) = JNum 10 \<and>
   isScheduled (nodes doubled_written 1) \<and>
   1 \<in> set (microtasks doubled_written)"
proof -
  have p: "pure double_prog" by (simp add: double_prog_def)
  have r: "reachable doubled_flushed" "reachable doubled_written"
    using doubled_reachable by simp_all
  have k: "kind (nodes doubled_flushed 1) = Computed double_prog"
    "kind (nodes doubled_written 1) = Computed double_prog"
    using doubled_kind by simp_all
  have e: "\<not> isScheduled (nodes doubled_flushed 1) \<and> fst (read 1 doubled_flushed) = JNum 10 \<and>
    isScheduled (nodes doubled_written 1)"
    by code_simp
  have "0 \<in> rds double_prog (vals doubled_flushed)"
    by (simp add: double_prog_def)
  with computed_fresh_or_queued [OF r(1) k(1) p] computed_fresh_or_queued [OF r(2) k(2) p] e
  show ?thesis by auto
qed

subsection \<open>Batched writes and effects: the law\<close>








text \<open>
  The last part of the theorem needs an effect over plain signals. The effect of the
  scenario reads \<open>x\<close> and the computed \<open>c\<close>, and is registered on \<open>x\<close> before \<open>c\<close> is.
  \<open>setX(5)\<close> queues it once, ahead of \<open>c\<close>; its run reads the new \<open>x\<close> and the old \<open>c\<close>;
  the recompute of \<open>c\<close> then changes \<open>c\<close> and queues the effect again, after its flush:
  a notification by \<open>c\<close>, not by a write to \<open>x\<close>. Both runs read the last value written
  to \<open>x\<close>.
\<close>

lemma effect_over_computed_runs_twice:
  "listeners (nodes mixed_switched 0) = [3, 2] \<and>
   microtasks mixed_switched = [] \<and>
   microtasks mixed_written = [3, 2] \<and>
   runs 3 (new_events mixed_written mixed_flushed) = 2 \<and>
   seen 3 0 (new_events mixed_written mixed_flushed) = [JNum 5, JNum 5] \<and>
   seen 3 2 (new_events mixed_written mixed_flushed) = [JNum 0, JNum 5] \<and>
   microtasks mixed_flushed = []"
  by code_simp

end
